theory Spec2Isabelle
  imports Complex_Main "HOL-Library.Product_Lexorder" "HOL-Library.Multiset"
begin

section \<open>The instance generator \<^verbatim>\<open>generate_problem.py\<close>\<close>

text \<open>
  A shallow embedding of \<^verbatim>\<open>generate_problem_file\<close>. Python floats are idealised as
  reals. The global random source \<^verbatim>\<open>np.random\<close> is made explicit: a run takes the list
  of uniform variates that the source yields, in the order the program asks for them, and
  returns what is left of it. A run that asks for more variates than the list holds has
  the value \<open>None\<close>: the list is the fuel of the retry loops, none of which has a bound
  of its own in the source, so a run that never ends is \<open>None\<close> on every list.
  An exception is a value \<open>Inl e\<close>. The counts \<^verbatim>\<open>locations\<close> and \<^verbatim>\<open>points\<close> are natural
  numbers here; \<^verbatim>\<open>services\<close> is an integer, since the program computes \<^verbatim>\<open>services - 1\<close>.
  Left out are the centrality diagnostics (lines 109 to 119), the optional drawing and the
  writing of the file: they read the state and change nothing.
\<close>

subsection \<open>Data\<close>

type_synonym coord = "real \<times> real"

text \<open>
  The exceptions a run can raise: \<^verbatim>\<open>SystemExit\<close> with its exit code, raised by
  \<^verbatim>\<open>exit()\<close> at line 36 with no code; the division by \<^verbatim>\<open>locations ** (1.0 / 3.0)\<close> at
  line 41 when \<^verbatim>\<open>locations\<close> is 0; and numpy's \<^verbatim>\<open>ValueError\<close> for a negative size or
  an empty range.
\<close>

datatype error = SystemExit "int option" | ZeroDivisionError | ValueError

record config =
  services :: int
  locations :: nat
  points :: nat
  service_range_factor :: real

text \<open>
  The \<^verbatim>\<open>networkx\<close> graph: the node attribute \<^verbatim>\<open>pos\<close> of node \<open>i\<close> at index \<open>i\<close>, and
  the neighbour dictionary of node \<open>i\<close> as the list of its keys in insertion order.
\<close>

record graph =
  pos :: "coord list"
  adj :: "nat list list"

text \<open>The mutable state of a run: the dictionary \<^verbatim>\<open>coords\<close> (key \<open>i\<close> at index \<open>i\<close>) and \<^verbatim>\<open>G\<close>.\<close>

record state =
  coords :: "coord list"
  G :: graph

text \<open>A row of the data frame \<^verbatim>\<open>data\<close>: service, location, point.\<close>

type_synonym row = "int \<times> nat \<times> nat"

text \<open>A row of \<^verbatim>\<open>final_data\<close>: a cell that the concatenation leaves empty (NaN) is \<open>None\<close>.\<close>

type_synonym final_row = "row option \<times> int option \<times> int option"

record generated =
  out_coords :: "coord list"
  out_G :: graph
  final_data :: "final_row list"

subsection \<open>Geometry and the random source\<close>

definition distance :: "coord \<Rightarrow> coord \<Rightarrow> real" where
  "distance p0 p1 = sqrt ((fst p1 - fst p0)\<^sup>2 + (snd p1 - snd p0)\<^sup>2)"

text \<open>The inner \<^verbatim>\<open>for c in coords.values()\<close> loop that sets \<^verbatim>\<open>too_close\<close>.\<close>

definition too_close :: "real \<Rightarrow> coord list \<Rightarrow> coord \<Rightarrow> bool" where
  "too_close minimum_distance cs new_coord =
     list_ex (\<lambda>c. distance c new_coord < minimum_distance) cs"

text \<open>\<^verbatim>\<open>np.random.random_sample(n)\<close>: the next \<open>n\<close> variates.\<close>

definition random_sample :: "nat \<Rightarrow> real list \<Rightarrow> (real list \<times> real list) option" where
  "random_sample n ds = (if n \<le> length ds then Some (take n ds, drop n ds) else None)"

text \<open>
  \<^verbatim>\<open>np.random.randint(n)\<close>: an integer of \<open>[0, n)\<close> from one variate; numpy raises
  \<^verbatim>\<open>ValueError\<close> for \<open>n \<le> 0\<close>.
\<close>

definition randint :: "int \<Rightarrow> real list \<Rightarrow> ((error + int) \<times> real list) option" where
  "randint n ds =
     (if n \<le> 0 then Some (Inl ValueError, ds)
      else case ds of [] \<Rightarrow> None | u # ds' \<Rightarrow> Some (Inr \<lfloor>u * real_of_int n\<rfloor>, ds'))"

text \<open>A dictionary with keys \<open>0, \<dots>, n - 1\<close> as a list: assigning to key \<open>n\<close> appends.\<close>

definition dict_set :: "'a list \<Rightarrow> nat \<Rightarrow> 'a \<Rightarrow> 'a list" where
  "dict_set xs i v = (if i < length xs then xs[i := v] else xs @ [v])"

subsection \<open>Initial placement (lines 43 to 55)\<close>

text \<open>
  The \<^verbatim>\<open>while node_idx < total_nodes\<close> loop. A candidate takes two variates, one
  \<^verbatim>\<open>np.random.random()\<close> for each coordinate; a rejected candidate (\<^verbatim>\<open>continue\<close>) leaves
  \<^verbatim>\<open>node_idx\<close> as it is.
\<close>

fun place :: "nat \<Rightarrow> real \<Rightarrow> coord list \<Rightarrow> nat \<Rightarrow> real list \<Rightarrow> (coord list \<times> real list) option" where
  "place total_nodes minimum_distance cs node_idx ds =
     (if node_idx < total_nodes then
        (case ds of
           x # y # ds' \<Rightarrow>
             if too_close minimum_distance cs (x, y)
             then place total_nodes minimum_distance cs node_idx ds'
             else place total_nodes minimum_distance (dict_set cs node_idx (x, y)) (node_idx + 1) ds'
         | _ \<Rightarrow> None)
      else Some (cs, ds))"

declare place.simps [simp del]

subsection \<open>The graph operations of \<^verbatim>\<open>networkx\<close> that the program calls\<close>

text \<open>
  The program adds edges between nodes of the graph only, and removes an edge only after
  \<^verbatim>\<open>has_edge\<close> has found it; what \<^verbatim>\<open>networkx\<close> does otherwise (a new node, an
  exception) is not modelled.
\<close>

definition has_edge :: "graph \<Rightarrow> nat \<Rightarrow> nat \<Rightarrow> bool" where
  "has_edge g u v = (u < length (adj g) \<and> v \<in> set (adj g ! u))"

text \<open>Adding a key to a neighbour dictionary: a key already there keeps its place.\<close>

definition add_key :: "nat \<Rightarrow> nat list \<Rightarrow> nat list" where
  "add_key v ns = (if v \<in> set ns then ns else ns @ [v])"

definition add_edge :: "graph \<Rightarrow> nat \<Rightarrow> nat \<Rightarrow> graph" where
  "add_edge g u v =
     (let a1 = (adj g)[u := add_key v (adj g ! u)];
          a2 = a1[v := add_key u (a1 ! v)]
      in g\<lparr>adj := a2\<rparr>)"

definition remove_edge :: "graph \<Rightarrow> nat \<Rightarrow> nat \<Rightarrow> graph" where
  "remove_edge g u v =
     (let a1 = (adj g)[u := removeAll v (adj g ! u)];
          a2 = a1[v := removeAll u (a1 ! v)]
      in g\<lparr>adj := a2\<rparr>)"

text \<open>
  \<^verbatim>\<open>nx.random_geometric_graph(n, radius, pos)\<close> is a function of the library, modelled by
  its documentation: nodes \<open>0, \<dots>, n - 1\<close> with the given positions, and an edge between
  every two nodes at distance at most \<open>radius\<close>, whatever their class.
\<close>

definition geometric_edges :: "nat \<Rightarrow> real \<Rightarrow> coord list \<Rightarrow> (nat \<times> nat) list" where
  "geometric_edges n radius ps =
     [(u, v). u \<leftarrow> [0..<n], v \<leftarrow> [Suc u..<n], distance (ps ! u) (ps ! v) \<le> radius]"

definition random_geometric_graph :: "nat \<Rightarrow> real \<Rightarrow> coord list \<Rightarrow> graph" where
  "random_geometric_graph n radius ps =
     fold (\<lambda>(u, v) g. add_edge g u v) (geometric_edges n radius ps)
       \<lparr>pos = ps, adj = replicate n []\<rparr>"

subsection \<open>Removing the edges inside a class (lines 59 to 67)\<close>

definition remove_if_edge :: "nat \<times> nat \<Rightarrow> graph \<Rightarrow> graph" where
  "remove_if_edge e g = (if has_edge g (fst e) (snd e) then remove_edge g (fst e) (snd e) else g)"

definition remove_within :: "nat list \<Rightarrow> graph \<Rightarrow> graph" where
  "remove_within idxs g = fold remove_if_edge (List.product idxs idxs) g"

definition remove_same_class :: "nat \<Rightarrow> nat \<Rightarrow> graph \<Rightarrow> graph" where
  "remove_same_class locs total_nodes g =
     remove_within [locs..<total_nodes] (remove_within [0..<locs] g)"

subsection \<open>Repair (lines 69 to 108)\<close>

text \<open>
  The inner \<^verbatim>\<open>while too_close\<close> loop (lines 73 to 81 and 93 to 101): draw until a
  candidate is far enough from every coordinate, the node's own old one included.
\<close>

fun sample_free :: "real \<Rightarrow> coord list \<Rightarrow> real list \<Rightarrow> (coord \<times> real list) option" where
  "sample_free minimum_distance cs (x # y # ds) =
     (if too_close minimum_distance cs (x, y) then sample_free minimum_distance cs ds
      else Some ((x, y), ds))"
| "sample_free minimum_distance cs _ = None"

text \<open>The two \<^verbatim>\<open># update neighbors\<close> loops: both call \<^verbatim>\<open>G.add_edge(loc_idx, dem_idx)\<close>.\<close>

definition connect_dem :: "real \<Rightarrow> nat \<Rightarrow> nat \<Rightarrow> coord \<Rightarrow> graph \<Rightarrow> graph" where
  "connect_dem service_range locs dem_idx new_coord g =
     fold (\<lambda>loc_idx g. if distance (pos g ! loc_idx) new_coord \<le> service_range
                        then add_edge g loc_idx dem_idx else g) [0..<locs] g"

definition connect_loc :: "real \<Rightarrow> nat \<Rightarrow> nat \<Rightarrow> nat \<Rightarrow> coord \<Rightarrow> graph \<Rightarrow> graph" where
  "connect_loc service_range locs total_nodes loc_idx new_coord g =
     fold (\<lambda>dem_idx g. if distance (pos g ! dem_idx) new_coord \<le> service_range
                        then add_edge g loc_idx dem_idx else g) [locs..<total_nodes] g"

text \<open>One relocation: the body of \<^verbatim>\<open>while len(G[idx]) == 0\<close> after the candidate is found.
  The parameter \<open>connect\<close> is the neighbour loop of the pass.\<close>

definition relocate :: "(nat \<Rightarrow> coord \<Rightarrow> graph \<Rightarrow> graph) \<Rightarrow> nat \<Rightarrow> coord \<Rightarrow> state \<Rightarrow> state" where
  "relocate connect idx new_coord st =
     \<lparr>coords = (coords st)[idx := new_coord],
      G = connect idx new_coord ((G st)\<lparr>pos := (pos (G st))[idx := new_coord]\<rparr>)\<rparr>"

lemma sample_free_shorter: "sample_free md cs ds = Some (c, ds') \<Longrightarrow> length ds' < length ds"
  by (induction md cs ds rule: sample_free.induct) (auto split: if_splits)

function repair_node ::
  "(nat \<Rightarrow> coord \<Rightarrow> graph \<Rightarrow> graph) \<Rightarrow> real \<Rightarrow> nat \<Rightarrow> state \<Rightarrow> real list \<Rightarrow> (state \<times> real list) option" where
  "repair_node connect minimum_distance idx st ds =
     (if length (adj (G st) ! idx) = 0 then
        (case sample_free minimum_distance (coords st) ds of
           None \<Rightarrow> None
         | Some (new_coord, ds') \<Rightarrow>
             repair_node connect minimum_distance idx (relocate connect idx new_coord st) ds')
      else Some (st, ds))"
  by pat_completeness auto
termination
  by (relation "measure (\<lambda>(connect, md, idx, st, ds). length ds)")
     (auto dest: sample_free_shorter)

declare repair_node.simps [simp del]

text \<open>The \<^verbatim>\<open>for\<close> loop of a pass over the nodes of one class.\<close>

fun repair_nodes ::
  "(nat \<Rightarrow> coord \<Rightarrow> graph \<Rightarrow> graph) \<Rightarrow> real \<Rightarrow> nat list \<Rightarrow> state \<Rightarrow> real list \<Rightarrow> (state \<times> real list) option" where
  "repair_nodes connect minimum_distance [] st ds = Some (st, ds)"
| "repair_nodes connect minimum_distance (idx # idxs) st ds =
     (case repair_node connect minimum_distance idx st ds of
        None \<Rightarrow> None
      | Some (st', ds') \<Rightarrow> repair_nodes connect minimum_distance idxs st' ds')"

subsection \<open>Service assignment (lines 134 to 154)\<close>

text \<open>
  The loop over the demand points, with \<^verbatim>\<open>services_list\<close>, \<^verbatim>\<open>locations_list\<close> and
  \<^verbatim>\<open>points_list\<close> as one list of rows. The id for the next demand point is chosen at the end
  of each iteration, also of the last one.
\<close>

fun assign ::
  "int \<Rightarrow> nat \<Rightarrow> graph \<Rightarrow> nat list \<Rightarrow> int \<Rightarrow> bool \<Rightarrow> row list \<Rightarrow> real list
     \<Rightarrow> ((error + row list) \<times> real list) option" where
  "assign srv locs g [] service_requested all_services_requested rows ds = Some (Inr rows, ds)"
| "assign srv locs g (dem_idx # rest) service_requested all_services_requested rows ds =
     (let rows' = rows @ map (\<lambda>loc. (service_requested, loc, dem_idx - locs)) (adj g ! dem_idx)
      in if \<not> all_services_requested then
           (if service_requested = srv - 1
            then assign srv locs g rest service_requested True rows' ds
            else assign srv locs g rest (service_requested + 1) False rows' ds)
         else
           (case randint srv ds of
              None \<Rightarrow> None
            | Some (Inl e, ds') \<Rightarrow> Some (Inl e, ds')
            | Some (Inr k, ds') \<Rightarrow> assign srv locs g rest k True rows' ds'))"

subsection \<open>Costs and the final table (lines 156 to 172)\<close>

definition nth_opt :: "'a list \<Rightarrow> nat \<Rightarrow> 'a option" where
  "nth_opt xs i = (if i < length xs then Some (xs ! i) else None)"

text \<open>\<^verbatim>\<open>pd.concat([a, b, c], axis = 1)\<close> of frames indexed \<open>0, 1, \<dots>\<close>: the rows are joined by
  position, and the shorter frames leave their cells empty.\<close>

definition concat_axis1 :: "row list \<Rightarrow> int list \<Rightarrow> int list \<Rightarrow> final_row list" where
  "concat_axis1 a b c =
     map (\<lambda>i. (nth_opt a i, nth_opt b i, nth_opt c i))
       [0..<max (length a) (max (length b) (length c))]"

text \<open>
  The costs: \<^verbatim>\<open>(ocr[0] + (ocr[1] - ocr[0]) * u).astype(int)\<close> for a variate \<open>u\<close>, and the
  same with \<^verbatim>\<open>ecr\<close>; the values are positive, so the conversion rounds down.
\<close>

definition opening_cost :: "real \<Rightarrow> int" where
  "opening_cost u = \<lfloor>4000 + (5000 - 4000) * u\<rfloor>"

definition equip_cost :: "real \<Rightarrow> int" where
  "equip_cost u = \<lfloor>200 + (500 - 200) * u\<rfloor>"

subsection \<open>The whole run\<close>

definition service_range :: "config \<Rightarrow> real" where
  "service_range cfg = service_range_factor cfg / (real (locations cfg) powr (1 / 3))"

definition minimum_distance :: "config \<Rightarrow> real" where
  "minimum_distance cfg = 0.1 * service_range cfg"

definition total_nodes :: "config \<Rightarrow> nat" where
  "total_nodes cfg = locations cfg + points cfg"

text \<open>Lines 43 to 67: placement, the geometric graph, and the removal of the edges inside a
  class.\<close>

definition build :: "config \<Rightarrow> real list \<Rightarrow> (state \<times> real list) option" where
  "build cfg ds =
     (case place (total_nodes cfg) (minimum_distance cfg) [] 0 ds of
        None \<Rightarrow> None
      | Some (cs, ds') \<Rightarrow>
          Some (\<lparr>coords = cs,
                 G = remove_same_class (locations cfg) (total_nodes cfg)
                       (random_geometric_graph (total_nodes cfg) (service_range cfg) cs)\<rparr>, ds'))"

text \<open>Lines 69 to 88 and 89 to 108: the two passes.\<close>

definition repair_dems :: "config \<Rightarrow> state \<Rightarrow> real list \<Rightarrow> (state \<times> real list) option" where
  "repair_dems cfg st ds =
     repair_nodes (connect_dem (service_range cfg) (locations cfg)) (minimum_distance cfg)
       [locations cfg..<total_nodes cfg] st ds"

definition repair_locs :: "config \<Rightarrow> state \<Rightarrow> real list \<Rightarrow> (state \<times> real list) option" where
  "repair_locs cfg st ds =
     repair_nodes (\<lambda>loc_idx. connect_loc (service_range cfg) (locations cfg) (total_nodes cfg) loc_idx)
       (minimum_distance cfg) [0..<locations cfg] st ds"

definition repaired :: "config \<Rightarrow> real list \<Rightarrow> (state \<times> real list) option" where
  "repaired cfg ds =
     (case build cfg ds of
        None \<Rightarrow> None
      | Some (st1, ds1) \<Rightarrow>
          (case repair_dems cfg st1 ds1 of
             None \<Rightarrow> None
           | Some (st2, ds2) \<Rightarrow> repair_locs cfg st2 ds2))"

text \<open>
  Lines 134 to 172 on the repaired state. \<^verbatim>\<open>sort_values(by=['service', 'location', 'point'])\<close>
  sorts the rows in ascending lexicographic order of the three columns, which is the
  order of the triples here (the lexicographic order of products); rows with equal keys
  are equal. The opening costs are drawn before the equip costs.
\<close>

definition tabulate :: "config \<Rightarrow> state \<Rightarrow> real list \<Rightarrow> ((error + generated) \<times> real list) option" where
  "tabulate cfg st ds =
     (case assign (services cfg) (locations cfg) (G st) [locations cfg..<total_nodes cfg] 0 False [] ds of
        None \<Rightarrow> None
      | Some (Inl e, ds1) \<Rightarrow> Some (Inl e, ds1)
      | Some (Inr rows, ds1) \<Rightarrow>
          (case random_sample (locations cfg) ds1 of
             None \<Rightarrow> None
           | Some (us, ds2) \<Rightarrow>
               if services cfg < 0 then Some (Inl ValueError, ds2)
               else
                 (case random_sample (nat (services cfg)) ds2 of
                    None \<Rightarrow> None
                  | Some (vs, ds3) \<Rightarrow>
                      Some (Inr \<lparr>out_coords = coords st, out_G = G st,
                                 final_data = concat_axis1 (sort rows) (map opening_cost us)
                                                (map equip_cost vs)\<rparr>, ds3))))"

definition generate_problem_file :: "config \<Rightarrow> real list \<Rightarrow> ((error + generated) \<times> real list) option" where
  "generate_problem_file cfg ds =
     (if services cfg > int (points cfg) then Some (Inl (SystemExit None), ds)
      else if locations cfg = 0 then Some (Inl ZeroDivisionError, ds)
      else
        (case repaired cfg ds of
           None \<Rightarrow> None
         | Some (st, ds') \<Rightarrow> tabulate cfg st ds'))"

text \<open>
  The script (lines 177 to 196) calls \<^verbatim>\<open>generate_problem_file\<close> once and catches nothing,
  so an exception of the call ends the interpreter. \<^verbatim>\<open>SystemExit\<close> with no code ends the
  process with exit status 0, the status of success, and without a traceback;
  \<^verbatim>\<open>SystemExit\<close> with an integer code ends it with that code, of which a POSIX system
  keeps the low eight bits; any other exception ends it with a traceback and exit status
  1. When the call returns, the script ends with exit status 0.
\<close>

definition exit_status :: "error \<Rightarrow> int" where
  "exit_status e =
     (case e of
        SystemExit None \<Rightarrow> 0
      | SystemExit (Some n) \<Rightarrow> n mod 256
      | ZeroDivisionError \<Rightarrow> 1
      | ValueError \<Rightarrow> 1)"

definition script_status :: "config \<Rightarrow> real list \<Rightarrow> int option" where
  "script_status cfg ds =
     (case generate_problem_file cfg ds of
        None \<Rightarrow> None
      | Some (Inl e, ds') \<Rightarrow> Some (exit_status e)
      | Some (Inr out, ds') \<Rightarrow> Some 0)"



section \<open>Properties\<close>

subsection \<open>Predicates of the statements\<close>

text \<open>
  A graph on \<open>n\<close> nodes is well formed when each neighbour list has no repetition and
  names nodes of the graph other than its owner, and the neighbour relation is symmetric.
  It is bipartite when every edge joins a location (index below \<open>locs\<close>) and a demand
  point. \<open>grows g g'\<close>: no edge of \<open>g\<close> is missing in \<open>g'\<close>. \<open>separated m cs\<close>: any two
  distinct coordinates of \<open>cs\<close> are at distance at least \<open>m\<close>. \<open>state_ok\<close> is the invariant
  of the repair: the sizes agree, the graph is well formed and bipartite, the coordinates
  are separated. \<open>kept st st'\<close>: from \<open>st\<close> to \<open>st'\<close> no edge is lost and every node with
  a neighbour in \<open>st\<close> keeps its coordinate. \<open>cross_connect\<close>: a neighbour loop keeps a
  well-formed bipartite graph so, and only adds edges. \<open>edge_pairs\<close>: the (location, point)
  pairs of the neighbour lists of the demand points, in the order of the assignment loop.
  \<open>records out\<close>: the records of the table, in row order. \<open>unit_draws ds\<close>: every variate
  is in \<open>[0, 1)\<close>, as \<^verbatim>\<open>np.random.random\<close> promises. \<open>reads_prefix f\<close>: a run of \<open>f\<close> that
  returns has read a prefix of the source, and returns the same on every source that
  starts with this prefix. \<open>draws_of\<close>: the variates that make a list of candidates.
  \<open>reach_dem\<close> and \<open>reach_loc\<close>: a repair pass run on the nodes before a given one, that
  is, up to the moment the pass reaches this node. \<open>row_le\<close>: the order of the sort key
  (service, location, point).
\<close>

definition wf_graph :: "nat \<Rightarrow> graph \<Rightarrow> bool" where
  "wf_graph n g \<longleftrightarrow>
     length (adj g) = n \<and>
     (\<forall>u<n. distinct (adj g ! u) \<and> (\<forall>v\<in>set (adj g ! u). v < n \<and> v \<noteq> u \<and> u \<in> set (adj g ! v)))"

definition bipartite :: "nat \<Rightarrow> graph \<Rightarrow> bool" where
  "bipartite locs g \<longleftrightarrow> (\<forall>u<length (adj g). \<forall>v\<in>set (adj g ! u). (u < locs) \<noteq> (v < locs))"

definition grows :: "graph \<Rightarrow> graph \<Rightarrow> bool" where
  "grows g g' \<longleftrightarrow> length (adj g') = length (adj g) \<and> (\<forall>u<length (adj g). set (adj g ! u) \<subseteq> set (adj g' ! u))"

definition separated :: "real \<Rightarrow> coord list \<Rightarrow> bool" where
  "separated m cs \<longleftrightarrow>
     (\<forall>i<length cs. \<forall>j<length cs. i \<noteq> j \<longrightarrow> m \<le> distance (cs ! i) (cs ! j))"

definition state_ok :: "nat \<Rightarrow> nat \<Rightarrow> real \<Rightarrow> state \<Rightarrow> bool" where
  "state_ok n locs m st \<longleftrightarrow>
     length (coords st) = n \<and> length (pos (G st)) = n \<and> wf_graph n (G st) \<and>
     bipartite locs (G st) \<and> separated m (coords st)"

definition kept :: "state \<Rightarrow> state \<Rightarrow> bool" where
  "kept st st' \<longleftrightarrow>
     length (coords st') = length (coords st) \<and> grows (G st) (G st') \<and>
     (\<forall>u<length (adj (G st)). adj (G st) ! u \<noteq> [] \<longrightarrow> coords st' ! u = coords st ! u)"

definition cross_connect :: "nat \<Rightarrow> nat \<Rightarrow> (coord \<Rightarrow> graph \<Rightarrow> graph) \<Rightarrow> bool" where
  "cross_connect n locs f \<longleftrightarrow>
     (\<forall>c g. wf_graph n g \<and> bipartite locs g \<longrightarrow>
        wf_graph n (f c g) \<and> bipartite locs (f c g) \<and> pos (f c g) = pos g \<and> grows g (f c g))"

definition edge_pairs :: "nat \<Rightarrow> graph \<Rightarrow> nat list \<Rightarrow> (nat \<times> nat) list" where
  "edge_pairs locs g dems = concat (map (\<lambda>d. map (\<lambda>loc. (loc, d - locs)) (adj g ! d)) dems)"

definition records :: "generated \<Rightarrow> row list" where
  "records out = List.map_filter fst (final_data out)"

definition unit_draws :: "real list \<Rightarrow> bool" where
  "unit_draws ds \<longleftrightarrow> (\<forall>u\<in>set ds. 0 \<le> u \<and> u < 1)"

definition reads_prefix :: "(real list \<Rightarrow> ('a \<times> real list) option) \<Rightarrow> bool" where
  "reads_prefix f \<longleftrightarrow>
     (\<forall>ds r rest. f ds = Some (r, rest) \<longrightarrow>
        (\<exists>used. ds = used @ rest \<and> (\<forall>ds2. f (used @ ds2) = Some (r, ds2))))"

fun draws_of :: "coord list \<Rightarrow> real list" where
  "draws_of [] = []"
| "draws_of (c # cs) = fst c # snd c # draws_of cs"

definition reach_dem :: "config \<Rightarrow> nat \<Rightarrow> state \<Rightarrow> real list \<Rightarrow> (state \<times> real list) option" where
  "reach_dem cfg dem_idx st ds =
     repair_nodes (connect_dem (service_range cfg) (locations cfg)) (minimum_distance cfg)
       [locations cfg..<dem_idx] st ds"

definition reach_loc :: "config \<Rightarrow> nat \<Rightarrow> state \<Rightarrow> real list \<Rightarrow> (state \<times> real list) option" where
  "reach_loc cfg loc_idx st ds =
     repair_nodes (\<lambda>loc_idx. connect_loc (service_range cfg) (locations cfg) (total_nodes cfg) loc_idx)
       (minimum_distance cfg) [0..<loc_idx] st ds"

definition row_le :: "row \<Rightarrow> row \<Rightarrow> bool" where
  "row_le r r' \<longleftrightarrow>
     fst r < fst r' \<or>
     fst r = fst r' \<and> (fst (snd r) < fst (snd r') \<or>
                        fst (snd r) = fst (snd r') \<and> snd (snd r) \<le> snd (snd r'))"

subsection \<open>Example runs\<close>

text \<open>
  One location and four demand points with two services and range factor \<open>1 / 2\<close>, so
  that the service range is \<open>1 / 2\<close> and the minimum distance \<open>1 / 20\<close>. The source
  yields a rejected candidate during placement, leaves demand point 2 isolated, and
  relocates it twice before it is in range of the location. \<open>other_draws\<close> differs in one
  variate of the cost sampling. \<open>dense_cfg\<close> has two nodes; \<open>refused_cfg\<close> asks for more
  services than demand points.
\<close>

definition example_cfg :: config where
  "example_cfg = \<lparr>services = 2, locations = 1, points = 4, service_range_factor = 1 / 2\<rparr>"

definition example_draws :: "real list" where
  "example_draws =
     [0, 0, 3 / 10, 0, 3 / 10, 1 / 100, 9 / 10, 9 / 10, 3 / 10, 1 / 10, 0, 3 / 10,
      9 / 10, 9 / 10, 9 / 10, 4 / 5, 0, 2 / 5,
      1 / 4, 3 / 4, 1 / 2, 0, 99 / 100, 1 / 3]"

definition example_placed :: "coord list" where
  "example_placed = [(0, 0), (3 / 10, 0), (9 / 10, 9 / 10), (3 / 10, 1 / 10), (0, 3 / 10)]"

definition example_built :: state where
  "example_built = \<lparr>coords = example_placed,
                     G = \<lparr>pos = example_placed, adj = [[1, 3, 4], [0], [], [0], [0]]\<rparr>\<rparr>"

definition example_coords :: "coord list" where
  "example_coords = [(0, 0), (3 / 10, 0), (0, 2 / 5), (3 / 10, 1 / 10), (0, 3 / 10)]"

definition example_graph :: graph where
  "example_graph = \<lparr>pos = example_coords, adj = [[1, 3, 4, 2], [0], [0], [0], [0]]\<rparr>"

definition example_repaired :: state where
  "example_repaired = \<lparr>coords = example_coords, G = example_graph\<rparr>"

definition example_out :: generated where
  "example_out = \<lparr>out_coords = example_coords,
                   out_G = example_graph,
                   final_data = [(Some (0, 0, 0), Some 4500, Some 200),
                                 (Some (0, 0, 3), None, Some 497),
                                 (Some (1, 0, 1), None, None),
                                 (Some (1, 0, 2), None, None)]\<rparr>"

definition example_tail :: "real list" where
  "example_tail = [1 / 4, 3 / 4, 1 / 2, 0, 99 / 100, 1 / 3]"

definition other_draws :: "real list" where
  "other_draws =
     [0, 0, 3 / 10, 0, 3 / 10, 1 / 100, 9 / 10, 9 / 10, 3 / 10, 1 / 10, 0, 3 / 10,
      9 / 10, 9 / 10, 9 / 10, 4 / 5, 0, 2 / 5,
      1 / 4, 3 / 4, 1 / 2, 0, 0, 1 / 3]"

definition other_out :: generated where
  "other_out = \<lparr>out_coords = example_coords, out_G = example_graph,
                 final_data = [(Some (0, 0, 0), Some 4500, Some 200),
                               (Some (0, 0, 3), None, Some 200),
                               (Some (1, 0, 1), None, None),
                               (Some (1, 0, 2), None, None)]\<rparr>"

definition dense_cfg :: config where
  "dense_cfg = \<lparr>services = 1, locations = 1, points = 1, service_range_factor = 1\<rparr>"

definition refused_cfg :: config where
  "refused_cfg = \<lparr>services = 5, locations = 4, points = 3, service_range_factor = 1\<rparr>"

section \<open>Lemmas\<close>

subsection \<open>Adding and removing an edge\<close>

lemma wf_graphD:
  assumes "wf_graph n g" "u < n"
  shows "length (adj g) = n" "distinct (adj g ! u)"
    "v \<in> set (adj g ! u) \<Longrightarrow> v < n"
    "v \<in> set (adj g ! u) \<Longrightarrow> v \<noteq> u"
    "v \<in> set (adj g ! u) \<Longrightarrow> u \<in> set (adj g ! v)"
  using assms unfolding wf_graph_def by blast+

lemma wf_graphI:
  assumes "length (adj g) = n"
    and "\<And>u. u < n \<Longrightarrow> distinct (adj g ! u)"
    and "\<And>u v. u < n \<Longrightarrow> v \<in> set (adj g ! u) \<Longrightarrow> v < n \<and> v \<noteq> u \<and> u \<in> set (adj g ! v)"
  shows "wf_graph n g"
  using assms unfolding wf_graph_def by blast

lemma wf_graph_length: "wf_graph n g \<Longrightarrow> length (adj g) = n"
  by (simp add: wf_graph_def)

lemma length_adj_add_edge [simp]: "length (adj (add_edge g u v)) = length (adj g)"
  by (simp add: add_edge_def Let_def)

lemma pos_add_edge [simp]: "pos (add_edge g u v) = pos g"
  by (simp add: add_edge_def Let_def)

lemma set_add_key [simp]: "set (add_key v ns) = insert v (set ns)"
  by (auto simp: add_key_def)

lemma distinct_add_key [simp]: "distinct (add_key v ns) = distinct ns"
  by (simp add: add_key_def)

lemma adj_add_edge:
  assumes "u < length (adj g)" "v < length (adj g)" "u \<noteq> v"
  shows "adj (add_edge g u v) ! w =
           (if w = u then add_key v (adj g ! u) else if w = v then add_key u (adj g ! v) else adj g ! w)"
  using assms by (simp add: add_edge_def Let_def nth_list_update)

lemma nth_update_any: "xs[i := x] ! j = (if i = j \<and> i < length xs then x else xs ! j)"
  by (cases "i < length xs") (auto simp: nth_list_update list_update_beyond)

lemma mem_adj_add_edge:
  assumes "u < length (adj g)" "v < length (adj g)" "u \<noteq> v"
  shows "x \<in> set (adj (add_edge g u v) ! w) \<longleftrightarrow>
           x \<in> set (adj g ! w) \<or> (w = u \<and> x = v) \<or> (w = v \<and> x = u)"
  by (auto simp: adj_add_edge [OF assms])

lemma distinct_adj_add_edge:
  assumes "u < length (adj g)" "v < length (adj g)" "u \<noteq> v"
  shows "distinct (adj (add_edge g u v) ! w) = distinct (adj g ! w)"
  by (simp add: adj_add_edge [OF assms])

lemma grows_refl [simp]: "grows g g"
  by (simp add: grows_def)

lemma grows_trans: "grows g g' \<Longrightarrow> grows g' g'' \<Longrightarrow> grows g g''"
  unfolding grows_def by fastforce

lemma grows_add_edge: "grows g (add_edge g u v)"
proof -
  have "set (adj g ! w) \<subseteq> set (adj (add_edge g u v) ! w)" for w
    by (auto simp: add_edge_def Let_def nth_update_any)
  then show ?thesis by (simp add: grows_def)
qed

lemma grows_pos_update [simp]: "grows (g\<lparr>pos := ps\<rparr>) g' = grows g g'" "grows g (g'\<lparr>pos := ps\<rparr>) = grows g g'"
  by (simp_all add: grows_def)

lemma wf_graph_add_edge:
  assumes wf: "wf_graph n g" and u: "u < n" and v: "v < n" and ne: "u \<noteq> v"
  shows "wf_graph n (add_edge g u v)"
proof -
  from wf have len: "length (adj g) = n" by (simp add: wf_graph_def)
  note mem = mem_adj_add_edge [of u g v, unfolded len, OF u v ne]
  have old: "distinct (adj g ! w)" "x \<in> set (adj g ! w) \<Longrightarrow> x < n \<and> x \<noteq> w \<and> w \<in> set (adj g ! x)"
    if "w < n" for w x
    using wf_graphD [OF wf that] by blast+
  have dist: "distinct (adj (add_edge g u v) ! w)" if "w < n" for w
    using old(1) [OF that] distinct_adj_add_edge [of u g v w] u v ne len by simp
  have sym: "x < n \<and> x \<noteq> w \<and> w \<in> set (adj (add_edge g u v) ! x)"
    if "w < n" "x \<in> set (adj (add_edge g u v) ! w)" for w x
  proof -
    from that(2) consider "x \<in> set (adj g ! w)" | "w = u" "x = v" | "w = v" "x = u"
      by (auto simp: mem)
    then show ?thesis
    proof cases
      case 1
      with old(2) [OF that(1)] show ?thesis by (simp add: mem)
    next
      case 2
      with u v ne show ?thesis by (simp add: mem)
    next
      case 3
      with u v ne show ?thesis by (simp add: mem)
    qed
  qed
  show ?thesis
    by (rule wf_graphI) (simp add: len, erule dist, erule (1) sym)
qed

lemma bipartite_add_edge:
  assumes bp: "bipartite locs g" and u: "u < length (adj g)" and v: "v < length (adj g)"
    and cls: "u < locs" "locs \<le> v"
  shows "bipartite locs (add_edge g u v)"
proof -
  from cls have ne: "u \<noteq> v" by simp
  note mem = mem_adj_add_edge [OF u v ne]
  have "(w < locs) \<noteq> (x < locs)" if "w < length (adj g)" "x \<in> set (adj (add_edge g u v) ! w)" for w x
  proof -
    from that(2) consider "x \<in> set (adj g ! w)" | "w = u" "x = v" | "w = v" "x = u"
      by (auto simp: mem)
    then show ?thesis
    proof cases
      case 1
      with bp that(1) show ?thesis by (simp add: bipartite_def)
    next
      case 2
      with cls show ?thesis by simp
    next
      case 3
      with cls show ?thesis by simp
    qed
  qed
  then show ?thesis by (simp add: bipartite_def)
qed

lemma length_adj_remove_edge [simp]: "length (adj (remove_edge g u v)) = length (adj g)"
  by (simp add: remove_edge_def Let_def)

lemma pos_remove_edge [simp]: "pos (remove_edge g u v) = pos g"
  by (simp add: remove_edge_def Let_def)

lemma mem_adj_remove_edge:
  assumes "u < length (adj g)" "v < length (adj g)" "u \<noteq> v"
  shows "x \<in> set (adj (remove_edge g u v) ! w) \<longleftrightarrow>
           x \<in> set (adj g ! w) \<and> \<not> (w = u \<and> x = v) \<and> \<not> (w = v \<and> x = u)"
  using assms by (auto simp add: remove_edge_def Let_def nth_list_update)

lemma distinct_adj_remove_edge:
  assumes "distinct (adj g ! w)"
  shows "distinct (adj (remove_edge g u v) ! w)"
  using assms by (auto simp add: remove_edge_def Let_def nth_update_any distinct_removeAll)

lemma shrinks_remove_edge: "set (adj (remove_edge g u v) ! w) \<subseteq> set (adj g ! w)"
  by (auto simp add: remove_edge_def Let_def nth_update_any)

lemma wf_graph_remove_edge:
  assumes wf: "wf_graph n g" and u: "u < n" and v: "v < n" and ne: "u \<noteq> v"
  shows "wf_graph n (remove_edge g u v)"
proof -
  from wf have len: "length (adj g) = n" by (simp add: wf_graph_def)
  note mem = mem_adj_remove_edge [of u g v, unfolded len, OF u v ne]
  have old: "distinct (adj g ! w)" "x \<in> set (adj g ! w) \<Longrightarrow> x < n \<and> x \<noteq> w \<and> w \<in> set (adj g ! x)"
    if "w < n" for w x
    using wf_graphD [OF wf that] by blast+
  have dist: "distinct (adj (remove_edge g u v) ! w)" if "w < n" for w
    using old(1) [OF that] by (rule distinct_adj_remove_edge)
  have sym: "x < n \<and> x \<noteq> w \<and> w \<in> set (adj (remove_edge g u v) ! x)"
    if "w < n" "x \<in> set (adj (remove_edge g u v) ! w)" for w x
  proof -
    from that(2) have x: "x \<in> set (adj g ! w)" and nx: "\<not> (w = u \<and> x = v)" "\<not> (w = v \<and> x = u)"
      by (auto simp: mem)
    from old(2) [OF that(1) x] nx show ?thesis by (auto simp: mem)
  qed
  show ?thesis
    by (rule wf_graphI) (simp add: len, erule dist, erule (1) sym)
qed

lemma bipartite_remove_edge:
  assumes "bipartite locs g"
  shows "bipartite locs (remove_edge g u v)"
  using assms shrinks_remove_edge [of g u v] unfolding bipartite_def by fastforce

subsection \<open>Geometry\<close>

lemma distance_commute: "distance p q = distance q p"
  by (simp add: distance_def power2_commute)

lemma too_close_iff: "too_close m cs c \<longleftrightarrow> (\<exists>i<length cs. distance (cs ! i) c < m)"
  unfolding too_close_def list_ex_iff by (metis in_set_conv_nth)

lemma separated_Nil [simp]: "separated m []"
  by (simp add: separated_def)

lemma separated_update:
  assumes sep: "separated m cs" and free: "\<not> too_close m cs c"
  shows "separated m (cs[k := c])"
proof -
  have far: "m \<le> distance (cs ! i) c" if "i < length cs" for i
  proof -
    from free that have "\<not> distance (cs ! i) c < m" unfolding too_close_iff by blast
    then show ?thesis by simp
  qed
  have "m \<le> distance (cs[k := c] ! i) (cs[k := c] ! j)"
    if "i < length cs" "j < length cs" "i \<noteq> j" for i j
  proof -
    consider "i = k" | "j = k" | "i \<noteq> k" "j \<noteq> k" by blast
    then show ?thesis
    proof cases
      case 1
      with that far [of j] show ?thesis by (simp add: distance_commute)
    next
      case 2
      with that far [of i] show ?thesis by simp
    next
      case 3
      with that sep show ?thesis by (simp add: separated_def)
    qed
  qed
  then show ?thesis by (simp add: separated_def)
qed

lemma separated_snoc:
  assumes sep: "separated m cs" and free: "\<not> too_close m cs c"
  shows "separated m (cs @ [c])"
proof -
  have far: "m \<le> distance (cs ! i) c" if "i < length cs" for i
  proof -
    from free that have "\<not> distance (cs ! i) c < m" unfolding too_close_iff by blast
    then show ?thesis by simp
  qed
  have "m \<le> distance ((cs @ [c]) ! i) ((cs @ [c]) ! j)"
    if ij: "i < Suc (length cs)" "j < Suc (length cs)" "i \<noteq> j" for i j
  proof -
    consider "i = length cs" "j < length cs" | "j = length cs" "i < length cs"
      | "i < length cs" "j < length cs"
      using ij by linarith
    then show ?thesis
    proof cases
      case 1
      with far [of j] show ?thesis by (simp add: nth_append distance_commute)
    next
      case 2
      with far [of i] show ?thesis by (simp add: nth_append)
    next
      case 3
      with ij sep show ?thesis by (simp add: separated_def nth_append)
    qed
  qed
  then show ?thesis by (simp add: separated_def)
qed

subsection \<open>Placement\<close>

lemma place_done: "\<not> node_idx < n \<Longrightarrow> place n m cs node_idx ds = Some (cs, ds)"
  by (subst place.simps) simp

lemma place_short: "node_idx < n \<Longrightarrow> length ds < 2 \<Longrightarrow> place n m cs node_idx ds = None"
  by (subst place.simps) (auto split: list.splits)

lemma place_reject:
  "node_idx < n \<Longrightarrow> too_close m cs (x, y) \<Longrightarrow>
     place n m cs node_idx (x # y # ds) = place n m cs node_idx ds"
  by (subst place.simps) simp

lemma place_accept:
  "node_idx < n \<Longrightarrow> \<not> too_close m cs (x, y) \<Longrightarrow>
     place n m cs node_idx (x # y # ds) = place n m (dict_set cs node_idx (x, y)) (node_idx + 1) ds"
  by (subst place.simps) simp

lemma two_draws: "\<not> length ds < 2 \<Longrightarrow> \<exists>x y rest. ds = x # y # rest"
  by (auto simp: not_less Suc_le_length_iff numeral_2_eq_2)

lemma place_separated:
  assumes "place n m cs node_idx ds = Some (cs', ds')"
    and "separated m cs" and "node_idx = length cs" and "node_idx \<le> n"
  shows "separated m cs' \<and> length cs' = n"
  using assms
proof (induction n m cs node_idx ds rule: place.induct)
  case (1 n m cs node_idx ds)
  show ?case
  proof (cases "node_idx < n")
    case False
    with "1.prems" show ?thesis by (simp add: place_done)
  next
    case True
    with "1.prems"(1) have "\<not> length ds < 2" by (auto simp: place_short)
    then obtain x y rest where ds: "ds = x # y # rest" using two_draws by blast
    show ?thesis
    proof (cases "too_close m cs (x, y)")
      case close: True
      with "1.prems" True ds
      have "place n m cs node_idx rest = Some (cs', ds')"
        by (simp add: place_reject)
      with "1.IH"(1) [OF True ds _ close] "1.prems" show ?thesis by simp
    next
      case free: False
      with "1.prems" True ds
      have run: "place n m (cs @ [(x, y)]) (node_idx + 1) rest = Some (cs', ds')"
        by (simp add: place_accept dict_set_def)
      have "separated m (cs @ [(x, y)])"
        using "1.prems"(2) free by (rule separated_snoc)
      with "1.IH"(2) [OF True ds _ free] run "1.prems" True show ?thesis
        by (simp add: dict_set_def)
    qed
  qed
qed

subsection \<open>The geometric graph and the removal of edges inside a class\<close>

lemma geometric_edges_range:
  "(u, v) \<in> set (geometric_edges n r ps) \<Longrightarrow> u < v \<and> v < n"
  by (auto simp: geometric_edges_def)

lemma wf_graph_empty: "wf_graph n \<lparr>pos = ps, adj = replicate n []\<rparr>"
  by (rule wf_graphI) simp_all

lemma wf_graph_random_geometric_graph: "wf_graph n (random_geometric_graph n r ps)"
  unfolding random_geometric_graph_def
proof (rule fold_invariant [where Q = "\<lambda>e. fst e < snd e \<and> snd e < n"])
  show "fst e < snd e \<and> snd e < n" if "e \<in> set (geometric_edges n r ps)" for e
    using that geometric_edges_range [of "fst e" "snd e" n r ps] by simp
  show "wf_graph n \<lparr>pos = ps, adj = replicate n []\<rparr>" by (rule wf_graph_empty)
  show "wf_graph n ((case e of (u, v) \<Rightarrow> \<lambda>g. add_edge g u v) g)"
    if "fst e < snd e \<and> snd e < n" "wf_graph n g" for e g
    using that by (cases e) (simp add: wf_graph_add_edge)
qed

lemma pos_random_geometric_graph: "pos (random_geometric_graph n r ps) = ps"
  unfolding random_geometric_graph_def
  by (rule fold_invariant [where Q = "\<lambda>e. True"]) (auto split: prod.splits)

lemma wf_graph_remove_if_edge:
  assumes wf: "wf_graph n g" and e: "fst e < n" "snd e < n"
  shows "wf_graph n (remove_if_edge e g)"
proof (cases "has_edge g (fst e) (snd e)")
  case True
  then have "snd e \<in> set (adj g ! fst e)" by (simp add: has_edge_def)
  with wf_graphD(4) [OF wf e(1), of "snd e"] have "fst e \<noteq> snd e" by auto
  with wf e True show ?thesis by (simp add: remove_if_edge_def wf_graph_remove_edge)
next
  case False
  with wf show ?thesis by (simp add: remove_if_edge_def)
qed

lemma shrinks_remove_if_edge: "set (adj (remove_if_edge e g) ! w) \<subseteq> set (adj g ! w)"
  using shrinks_remove_edge by (simp add: remove_if_edge_def)

lemma pos_remove_if_edge [simp]: "pos (remove_if_edge e g) = pos g"
  by (simp add: remove_if_edge_def)

lemma gone_remove_if_edge:
  assumes wf: "wf_graph n g" and e: "fst e < n" "snd e < n"
  shows "snd e \<notin> set (adj (remove_if_edge e g) ! fst e)"
proof (cases "has_edge g (fst e) (snd e)")
  case True
  then have "snd e \<in> set (adj g ! fst e)" by (simp add: has_edge_def)
  with wf_graphD(4) [OF wf e(1), of "snd e"] have ne: "fst e \<noteq> snd e" by auto
  from wf have len: "length (adj g) = n" by (rule wf_graph_length)
  from True show ?thesis
    by (simp add: remove_if_edge_def mem_adj_remove_edge [of "fst e" g "snd e", unfolded len, OF e ne])
next
  case False
  with wf e show ?thesis by (simp add: remove_if_edge_def has_edge_def wf_graph_length)
qed

lemma wf_graph_fold_remove:
  assumes "wf_graph n g" and "\<forall>e\<in>set es. fst e < n \<and> snd e < n"
  shows "wf_graph n (fold remove_if_edge es g)"
proof (rule fold_invariant [where Q = "\<lambda>e. fst e < n \<and> snd e < n"])
  show "fst e < n \<and> snd e < n" if "e \<in> set es" for e using assms(2) that by blast
  show "wf_graph n g" by fact
  show "wf_graph n (remove_if_edge e g')" if "fst e < n \<and> snd e < n" "wf_graph n g'" for e g'
    using that by (simp add: wf_graph_remove_if_edge)
qed

lemma pos_fold_remove: "pos (fold remove_if_edge es g) = pos g"
  by (rule fold_invariant [where Q = "\<lambda>e. True"]) simp_all

lemma shrinks_fold_remove: "set (adj (fold remove_if_edge es g) ! w) \<subseteq> set (adj g ! w)"
proof (rule fold_invariant [where Q = "\<lambda>e. True"])
  show "set (adj (remove_if_edge e g') ! w) \<subseteq> set (adj g ! w)"
    if "set (adj g' ! w) \<subseteq> set (adj g ! w)" for e g'
    using that shrinks_remove_if_edge [of e g' w] by (rule order_trans [rotated])
qed simp_all

lemma gone_fold_remove:
  assumes "wf_graph n g" and "\<forall>e\<in>set es. fst e < n \<and> snd e < n" and "e \<in> set es"
  shows "snd e \<notin> set (adj (fold remove_if_edge es g) ! fst e)"
  using assms
proof (induction es arbitrary: g)
  case Nil
  then show ?case by simp
next
  case (Cons e' es)
  let ?g = "remove_if_edge e' g"
  from Cons.prems(2) have e': "fst e' < n" "snd e' < n" and rest: "\<forall>e\<in>set es. fst e < n \<and> snd e < n"
    by simp_all
  have wf: "wf_graph n ?g" using Cons.prems(1) e' by (rule wf_graph_remove_if_edge)
  show ?case
  proof (cases "e = e'")
    case True
    have "snd e \<notin> set (adj ?g ! fst e)"
      unfolding True using Cons.prems(1) e' by (rule gone_remove_if_edge)
    with shrinks_fold_remove [of es ?g "fst e"] show ?thesis by auto
  next
    case False
    with Cons.prems(3) have "e \<in> set es" by simp
    from Cons.IH [OF wf rest this] show ?thesis by simp
  qed
qed

lemma remove_within:
  assumes "wf_graph n g" and "\<forall>i\<in>set idxs. i < n"
  shows "wf_graph n (remove_within idxs g)" "pos (remove_within idxs g) = pos g"
    "set (adj (remove_within idxs g) ! w) \<subseteq> set (adj g ! w)"
    "i \<in> set idxs \<Longrightarrow> j \<in> set idxs \<Longrightarrow> j \<notin> set (adj (remove_within idxs g) ! i)"
proof -
  have rng: "\<forall>e\<in>set (List.product idxs idxs). fst e < n \<and> snd e < n"
    using assms(2) by simp
  show "wf_graph n (remove_within idxs g)"
    unfolding remove_within_def using assms(1) rng by (rule wf_graph_fold_remove)
  show "pos (remove_within idxs g) = pos g"
    unfolding remove_within_def by (rule pos_fold_remove)
  show "set (adj (remove_within idxs g) ! w) \<subseteq> set (adj g ! w)"
    unfolding remove_within_def by (rule shrinks_fold_remove)
  show "j \<notin> set (adj (remove_within idxs g) ! i)" if "i \<in> set idxs" "j \<in> set idxs"
  proof -
    from that have "(i, j) \<in> set (List.product idxs idxs)" by simp
    from gone_fold_remove [OF assms(1) rng this] show ?thesis
      by (simp add: remove_within_def)
  qed
qed

lemma remove_same_class:
  assumes wf: "wf_graph n g" and le: "locs \<le> n"
  shows "wf_graph n (remove_same_class locs n g)"
    and "bipartite locs (remove_same_class locs n g)"
    and "pos (remove_same_class locs n g) = pos g"
    and "set (adj (remove_same_class locs n g) ! w) \<subseteq> set (adj g ! w)"
proof -
  let ?g1 = "remove_within [0..<locs] g"
  let ?g2 = "remove_within [locs..<n] ?g1"
  have r1: "\<forall>i\<in>set [0..<locs]. i < n" using le by simp
  have r2: "\<forall>i\<in>set [locs..<n]. i < n" by simp
  note one = remove_within [OF wf r1]
  note two = remove_within [OF one(1) r2]
  show wf2: "wf_graph n (remove_same_class locs n g)"
    using two(1) by (simp add: remove_same_class_def)
  show "pos (remove_same_class locs n g) = pos g"
    using one(2) two(2) by (simp add: remove_same_class_def)
  show "set (adj (remove_same_class locs n g) ! w) \<subseteq> set (adj g ! w)"
    using one(3) [of w] two(3) [of w] by (auto simp: remove_same_class_def)
  have "(u < locs) \<noteq> (v < locs)" if u: "u < n" and v: "v \<in> set (adj ?g2 ! u)" for u v
  proof -
    from wf_graphD(3) [OF two(1) u v] have vn: "v < n" .
    show ?thesis
    proof (cases "u < locs")
      case True
      have "\<not> v < locs"
      proof
        assume "v < locs"
        with True one(4) [of u v] have "v \<notin> set (adj ?g1 ! u)" by simp
        with two(3) [of u] v show False by blast
      qed
      with True show ?thesis by simp
    next
      case False
      have "v < locs"
      proof (rule ccontr)
        assume "\<not> v < locs"
        with False u vn two(4) [of u v] have "v \<notin> set (adj ?g2 ! u)" by simp
        with v show False by blast
      qed
      with False show ?thesis by simp
    qed
  qed
  then show "bipartite locs (remove_same_class locs n g)"
    using wf_graph_length [OF two(1)] by (simp add: bipartite_def remove_same_class_def)
qed

subsection \<open>The neighbour loops\<close>

lemma cross_connect_add_edge:
  assumes "wf_graph n g \<and> bipartite locs g \<and> pos g = ps \<and> grows g0 g" and "u < locs" "locs \<le> v" "v < n"
  shows "wf_graph n (add_edge g u v) \<and> bipartite locs (add_edge g u v) \<and>
         pos (add_edge g u v) = ps \<and> grows g0 (add_edge g u v)"
proof -
  from assms have wf: "wf_graph n g" and bp: "bipartite locs g" and gr: "grows g0 g" and ps: "pos g = ps"
    by simp_all
  from wf have len: "length (adj g) = n" by (rule wf_graph_length)
  from assms have u: "u < n" and ne: "u \<noteq> v" by simp_all
  have "wf_graph n (add_edge g u v)" using wf u \<open>v < n\<close> ne by (rule wf_graph_add_edge)
  moreover have "bipartite locs (add_edge g u v)"
    using bp u \<open>v < n\<close> \<open>u < locs\<close> \<open>locs \<le> v\<close> unfolding len [symmetric] by (rule bipartite_add_edge)
  moreover have "grows g0 (add_edge g u v)"
    using gr grows_add_edge by (rule grows_trans)
  ultimately show ?thesis using ps by simp
qed

lemma cross_connect_dem:
  assumes "locs \<le> dem_idx" "dem_idx < n"
  shows "cross_connect n locs (connect_dem r locs dem_idx)"
  unfolding cross_connect_def
proof (intro allI impI)
  fix c g
  assume g: "wf_graph n g \<and> bipartite locs g"
  let ?P = "\<lambda>g'. wf_graph n g' \<and> bipartite locs g' \<and> pos g' = pos g \<and> grows g g'"
  show "?P (connect_dem r locs dem_idx c g)"
    unfolding connect_dem_def
  proof (rule fold_invariant [where Q = "\<lambda>loc. loc < locs"])
    show "loc < locs" if "loc \<in> set [0..<locs]" for loc using that by simp
    show "?P g" using g by simp
    show "?P (if distance (pos g' ! loc) c \<le> r then add_edge g' loc dem_idx else g')"
      if "loc < locs" "?P g'" for loc g'
      using cross_connect_add_edge [OF that(2) that(1) assms] that(2) by simp
  qed
qed

lemma cross_connect_loc:
  assumes "loc_idx < locs" "locs \<le> n"
  shows "cross_connect n locs (connect_loc r locs n loc_idx)"
  unfolding cross_connect_def
proof (intro allI impI)
  fix c g
  assume g: "wf_graph n g \<and> bipartite locs g"
  let ?P = "\<lambda>g'. wf_graph n g' \<and> bipartite locs g' \<and> pos g' = pos g \<and> grows g g'"
  show "?P (connect_loc r locs n loc_idx c g)"
    unfolding connect_loc_def
  proof (rule fold_invariant [where Q = "\<lambda>dem. locs \<le> dem \<and> dem < n"])
    show "locs \<le> dem \<and> dem < n" if "dem \<in> set [locs..<n]" for dem using that by simp
    show "?P g" using g by simp
    show "?P (if distance (pos g' ! dem) c \<le> r then add_edge g' loc_idx dem else g')"
      if "locs \<le> dem \<and> dem < n" "?P g'" for dem g'
      using cross_connect_add_edge [OF that(2) assms(1), of dem] that by simp
  qed
qed

subsection \<open>One relocation\<close>

lemma kept_refl [simp]: "kept st st"
  by (simp add: kept_def)

lemma grows_nonempty:
  assumes "grows g g'" "u < length (adj g)" "adj g ! u \<noteq> []"
  shows "adj g' ! u \<noteq> []"
proof -
  from assms(3) obtain x where "x \<in> set (adj g ! u)" by (cases "adj g ! u") auto
  with assms(1,2) have "x \<in> set (adj g' ! u)" unfolding grows_def by blast
  then show ?thesis by auto
qed

lemma kept_trans:
  assumes "kept s1 s2" "kept s2 s3"
  shows "kept s1 s3"
proof -
  from assms have len: "length (coords s3) = length (coords s1)" by (simp add: kept_def)
  from assms have g12: "grows (G s1) (G s2)" and g23: "grows (G s2) (G s3)" by (simp_all add: kept_def)
  then have gr: "grows (G s1) (G s3)" by (rule grows_trans)
  from g12 have la: "length (adj (G s2)) = length (adj (G s1))" by (simp add: grows_def)
  have "coords s3 ! u = coords s1 ! u" if u: "u < length (adj (G s1))" and ne: "adj (G s1) ! u \<noteq> []" for u
  proof -
    from g12 u ne have "adj (G s2) ! u \<noteq> []" by (rule grows_nonempty)
    with assms(2) u la have "coords s3 ! u = coords s2 ! u" by (simp add: kept_def)
    moreover from assms(1) u ne have "coords s2 ! u = coords s1 ! u" by (simp add: kept_def)
    ultimately show ?thesis by simp
  qed
  with len gr show ?thesis by (simp add: kept_def)
qed

lemma wf_graph_pos_update [simp]: "wf_graph n (g\<lparr>pos := ps\<rparr>) = wf_graph n g"
  by (simp add: wf_graph_def)

lemma bipartite_pos_update [simp]: "bipartite locs (g\<lparr>pos := ps\<rparr>) = bipartite locs g"
  by (simp add: bipartite_def)

lemma relocate_ok:
  assumes ok: "state_ok n locs m st" and idx: "idx < n" and free: "\<not> too_close m (coords st) c"
    and conn: "cross_connect n locs (connect idx)"
  shows "state_ok n locs m (relocate connect idx c st)"
    and "adj (G st) ! idx = [] \<Longrightarrow> kept st (relocate connect idx c st)"
proof -
  let ?g = "(G st)\<lparr>pos := (pos (G st))[idx := c]\<rparr>"
  from ok have wf: "wf_graph n ?g" and bp: "bipartite locs ?g"
    by (simp_all add: state_ok_def)
  with conn have c: "wf_graph n (connect idx c ?g)" "bipartite locs (connect idx c ?g)"
    "pos (connect idx c ?g) = pos ?g" "grows ?g (connect idx c ?g)"
    unfolding cross_connect_def by blast+
  from ok have sep: "separated m (coords st)" by (simp add: state_ok_def)
  from sep free have "separated m ((coords st)[idx := c])" by (rule separated_update)
  with ok c show "state_ok n locs m (relocate connect idx c st)"
    by (simp add: state_ok_def relocate_def)
  show "kept st (relocate connect idx c st)" if iso: "adj (G st) ! idx = []"
  proof -
    have "coords (relocate connect idx c st) ! u = coords st ! u" if "adj (G st) ! u \<noteq> []" for u
    proof -
      from that iso have "u \<noteq> idx" by auto
      then show ?thesis by (simp add: relocate_def)
    qed
    moreover have "grows (G st) (G (relocate connect idx c st))"
      using c(4) by (simp add: relocate_def)
    ultimately show ?thesis by (simp add: kept_def relocate_def)
  qed
qed

subsection \<open>The retry loops\<close>

lemma sample_free_accepts:
  "sample_free m cs ds = Some (c, ds') \<Longrightarrow> \<not> too_close m cs c"
  by (induction m cs ds rule: sample_free.induct) (auto split: if_splits)

lemma repair_node_done: "adj (G st) ! idx \<noteq> [] \<Longrightarrow> repair_node connect m idx st ds = Some (st, ds)"
  by (subst repair_node.simps) simp

lemma repair_node_retry:
  "adj (G st) ! idx = [] \<Longrightarrow>
     repair_node connect m idx st ds =
       (case sample_free m (coords st) ds of
          None \<Rightarrow> None
        | Some (new_coord, ds') \<Rightarrow> repair_node connect m idx (relocate connect idx new_coord st) ds')"
  by (subst repair_node.simps) simp

lemma repair_node_rule:
  assumes "repair_node connect m idx st ds = Some (st', ds')"
    and "I st"
    and "\<And>s c. I s \<Longrightarrow> adj (G s) ! idx = [] \<Longrightarrow> \<not> too_close m (coords s) c
            \<Longrightarrow> I (relocate connect idx c s)"
  shows "I st' \<and> adj (G st') ! idx \<noteq> []"
  using assms
proof (induction connect m idx st ds rule: repair_node.induct)
  case (1 connect m idx st ds)
  show ?case
  proof (cases "adj (G st) ! idx = []")
    case False
    with "1.prems"(1,2) show ?thesis by (simp add: repair_node_done)
  next
    case True
    with "1.prems"(1) obtain c rest where s: "sample_free m (coords st) ds = Some (c, rest)"
      and run: "repair_node connect m idx (relocate connect idx c st) rest = Some (st', ds')"
      by (auto simp: repair_node_retry split: option.splits)
    from s have free: "\<not> too_close m (coords st) c" by (rule sample_free_accepts)
    have moved: "I (relocate connect idx c st)"
      using "1.prems"(2) True free by (rule "1.prems"(3))
    from True have iso: "length (adj (G st) ! idx) = 0" by simp
    show ?thesis
      using iso s refl run moved "1.prems"(3) by (rule "1.IH")
  qed
qed

lemma repair_node_ok:
  assumes run: "repair_node connect m idx st ds = Some (st', ds')"
    and ok: "state_ok n locs m st" and idx: "idx < n"
    and conn: "cross_connect n locs (connect idx)"
  shows "state_ok n locs m st' \<and> kept st st' \<and> adj (G st') ! idx \<noteq> []"
proof -
  let ?I = "\<lambda>s. state_ok n locs m s \<and> kept st s"
  have "?I st' \<and> adj (G st') ! idx \<noteq> []"
  proof (rule repair_node_rule [OF run, where I = ?I])
    show "?I st" using ok by simp
    show "?I (relocate connect idx c s)"
      if "?I s" "adj (G s) ! idx = []" "\<not> too_close m (coords s) c" for s c
    proof -
      from that(1) have oks: "state_ok n locs m s" and k: "kept st s" by simp_all
      from relocate_ok [where connect = connect, OF oks idx that(3) conn] that(2)
      have "state_ok n locs m (relocate connect idx c s)" "kept s (relocate connect idx c s)"
        by simp_all
      with k show ?thesis using kept_trans by blast
    qed
  qed
  then show ?thesis by simp
qed

lemma state_ok_adj_length: "state_ok n locs m st \<Longrightarrow> length (adj (G st)) = n"
  by (simp add: state_ok_def wf_graph_def)

lemma repair_nodes_ok:
  assumes "repair_nodes connect m idxs st ds = Some (st', ds')"
    and "state_ok n locs m st"
    and "\<forall>idx\<in>set idxs. idx < n \<and> cross_connect n locs (connect idx)"
  shows "state_ok n locs m st' \<and> kept st st' \<and> (\<forall>idx\<in>set idxs. adj (G st') ! idx \<noteq> [])"
  using assms
proof (induction idxs arbitrary: st ds)
  case Nil
  then show ?case by simp
next
  case (Cons idx idxs)
  from Cons.prems(1) obtain s1 d1 where one: "repair_node connect m idx st ds = Some (s1, d1)"
    and rest: "repair_nodes connect m idxs s1 d1 = Some (st', ds')"
    by (auto split: option.splits)
  from Cons.prems(3) have idx: "idx < n" "cross_connect n locs (connect idx)"
    and others: "\<forall>idx\<in>set idxs. idx < n \<and> cross_connect n locs (connect idx)"
    by simp_all
  from repair_node_ok [OF one Cons.prems(2) idx]
  have s1: "state_ok n locs m s1" "kept st s1" "adj (G s1) ! idx \<noteq> []" by simp_all
  from Cons.IH [OF rest s1(1) others]
  have st': "state_ok n locs m st'" "kept s1 st'" "\<forall>idx\<in>set idxs. adj (G st') ! idx \<noteq> []"
    by simp_all
  from s1(2) st'(2) have k: "kept st st'" by (rule kept_trans)
  from st'(2) have "grows (G s1) (G st')" by (simp add: kept_def)
  moreover from s1(1) idx(1) have "idx < length (adj (G s1))" by (simp add: state_ok_adj_length)
  ultimately have "adj (G st') ! idx \<noteq> []" using s1(3) by (rule grows_nonempty)
  with st' k show ?case by simp
qed

subsection \<open>The phases of a run\<close>

lemma build_ok:
  assumes "build cfg ds = Some (st, ds')"
  shows "state_ok (total_nodes cfg) (locations cfg) (minimum_distance cfg) st"
proof -
  let ?n = "total_nodes cfg" and ?m = "minimum_distance cfg"
  from assms obtain cs where p: "place ?n ?m [] 0 ds = Some (cs, ds')"
    and st: "st = \<lparr>coords = cs, G = remove_same_class (locations cfg) ?n
                      (random_geometric_graph ?n (service_range cfg) cs)\<rparr>"
    by (auto simp: build_def split: option.splits)
  from place_separated [OF p] have cs: "separated ?m cs" "length cs = ?n" by simp_all
  have le: "locations cfg \<le> ?n" by (simp add: total_nodes_def)
  note rm = remove_same_class [OF wf_graph_random_geometric_graph le, of "service_range cfg" cs]
  show ?thesis
    using cs rm(1,2,3) by (simp add: state_ok_def st pos_random_geometric_graph)
qed

lemma repair_dems_ok:
  assumes "repair_dems cfg st ds = Some (st', ds')"
    and "state_ok (total_nodes cfg) (locations cfg) (minimum_distance cfg) st"
  shows "state_ok (total_nodes cfg) (locations cfg) (minimum_distance cfg) st' \<and> kept st st' \<and>
         (\<forall>idx\<in>set [locations cfg..<total_nodes cfg]. adj (G st') ! idx \<noteq> [])"
proof (rule repair_nodes_ok [OF assms [unfolded repair_dems_def]])
  show "\<forall>idx\<in>set [locations cfg..<total_nodes cfg].
          idx < total_nodes cfg \<and>
          cross_connect (total_nodes cfg) (locations cfg) (connect_dem (service_range cfg) (locations cfg) idx)"
    by (simp add: cross_connect_dem)
qed

lemma repair_locs_ok:
  assumes "repair_locs cfg st ds = Some (st', ds')"
    and "state_ok (total_nodes cfg) (locations cfg) (minimum_distance cfg) st"
  shows "state_ok (total_nodes cfg) (locations cfg) (minimum_distance cfg) st' \<and> kept st st' \<and>
         (\<forall>idx\<in>set [0..<locations cfg]. adj (G st') ! idx \<noteq> [])"
proof (rule repair_nodes_ok [OF assms [unfolded repair_locs_def]])
  show "\<forall>idx\<in>set [0..<locations cfg].
          idx < total_nodes cfg \<and>
          cross_connect (total_nodes cfg) (locations cfg)
            (connect_loc (service_range cfg) (locations cfg) (total_nodes cfg) idx)"
    by (simp add: cross_connect_loc total_nodes_def)
qed

lemma repairedD:
  assumes "repaired cfg ds = Some (st, ds')"
  obtains st1 ds1 st2 ds2 where "build cfg ds = Some (st1, ds1)"
    and "repair_dems cfg st1 ds1 = Some (st2, ds2)"
    and "repair_locs cfg st2 ds2 = Some (st, ds')"
  using assms by (auto simp: repaired_def split: option.splits)

lemma repaired_ok:
  assumes "repaired cfg ds = Some (st, ds')"
  shows "state_ok (total_nodes cfg) (locations cfg) (minimum_distance cfg) st"
    and "u < total_nodes cfg \<Longrightarrow> adj (G st) ! u \<noteq> []"
proof -
  from assms obtain st1 ds1 st2 ds2 where b: "build cfg ds = Some (st1, ds1)"
    and d: "repair_dems cfg st1 ds1 = Some (st2, ds2)"
    and l: "repair_locs cfg st2 ds2 = Some (st, ds')"
    by (rule repairedD)
  note ok1 = build_ok [OF b]
  from repair_dems_ok [OF d ok1]
  have ok2: "state_ok (total_nodes cfg) (locations cfg) (minimum_distance cfg) st2"
    and dems: "\<forall>idx\<in>set [locations cfg..<total_nodes cfg]. adj (G st2) ! idx \<noteq> []"
    by simp_all
  from repair_locs_ok [OF l ok2]
  have ok3: "state_ok (total_nodes cfg) (locations cfg) (minimum_distance cfg) st"
    and k: "kept st2 st"
    and locs: "\<forall>idx\<in>set [0..<locations cfg]. adj (G st) ! idx \<noteq> []"
    by simp_all
  show "state_ok (total_nodes cfg) (locations cfg) (minimum_distance cfg) st" by fact
  show "adj (G st) ! u \<noteq> []" if u: "u < total_nodes cfg"
  proof (cases "u < locations cfg")
    case True
    with locs show ?thesis by simp
  next
    case False
    with dems u have "adj (G st2) ! u \<noteq> []" by simp
    moreover from k have "grows (G st2) (G st)" by (simp add: kept_def)
    moreover from ok2 u have "u < length (adj (G st2))" by (simp add: state_ok_adj_length)
    ultimately show ?thesis using grows_nonempty by blast
  qed
qed

lemma generate_returns:
  assumes "generate_problem_file cfg ds = Some (Inr out, ds')"
  obtains st ds1 where "repaired cfg ds = Some (st, ds1)" and "tabulate cfg st ds1 = Some (Inr out, ds')"
    and "services cfg \<le> int (points cfg)" and "0 < locations cfg"
  using assms by (auto simp: generate_problem_file_def split: if_splits option.splits)

lemma tabulate_state:
  assumes "tabulate cfg st ds = Some (Inr out, ds')"
  shows "out_coords out = coords st" "out_G out = G st"
  using assms
  by (auto simp: tabulate_def split: option.splits sum.splits if_splits prod.splits)

subsection \<open>Service assignment\<close>

lemma randint_range:
  assumes "randint n ds = Some (Inr k, ds')" and "unit_draws ds"
  shows "0 \<le> k \<and> k < n \<and> unit_draws ds'"
proof -
  from assms(1) obtain u where ds: "ds = u # ds'" and k: "k = \<lfloor>u * real_of_int n\<rfloor>" and n: "0 < n"
    by (auto simp: randint_def split: if_splits list.splits)
  from assms(2) ds have u: "0 \<le> u" "u < 1" and rest: "unit_draws ds'"
    by (simp_all add: unit_draws_def)
  from u n have "0 \<le> u * real_of_int n" by simp
  then have "0 \<le> k" unfolding k by simp
  moreover from u n have "u * real_of_int n < real_of_int n" by simp
  then have "k < n" unfolding k by (simp add: floor_less_iff)
  ultimately show ?thesis using rest by simp
qed

lemma assign_Cons:
  "assign srv locs g (dem_idx # rest) sr allr rows ds =
     (if \<not> allr then
        (if sr = srv - 1
         then assign srv locs g rest sr True (rows @ map (\<lambda>loc. (sr, loc, dem_idx - locs)) (adj g ! dem_idx)) ds
         else assign srv locs g rest (sr + 1) False (rows @ map (\<lambda>loc. (sr, loc, dem_idx - locs)) (adj g ! dem_idx)) ds)
      else
        (case randint srv ds of
           None \<Rightarrow> None
         | Some (Inl e, ds') \<Rightarrow> Some (Inl e, ds')
         | Some (Inr k, ds') \<Rightarrow>
             assign srv locs g rest k True (rows @ map (\<lambda>loc. (sr, loc, dem_idx - locs)) (adj g ! dem_idx)) ds'))"
  by (simp add: Let_def)

lemma assign_pairs:
  assumes "assign srv locs g dems sr allr rows ds = Some (Inr rows', ds')"
  shows "map snd rows' = map snd rows @ edge_pairs locs g dems"
  using assms
proof (induction dems arbitrary: sr allr rows ds)
  case Nil
  then show ?case by (simp add: edge_pairs_def)
next
  case (Cons d dems)
  let ?rows = "rows @ map (\<lambda>loc. (sr, loc, d - locs)) (adj g ! d)"
  have step: "map snd ?rows @ edge_pairs locs g dems = map snd rows @ edge_pairs locs g (d # dems)"
    by (simp add: edge_pairs_def comp_def)
  from Cons.prems obtain sr' allr' ds1 where
    "assign srv locs g dems sr' allr' ?rows ds1 = Some (Inr rows', ds')"
    unfolding assign_Cons by (auto split: if_splits option.splits sum.splits prod.splits)
  from Cons.IH [OF this] step show ?case by simp
qed

lemma assign_ids_range:
  assumes "assign srv locs g dems sr allr rows ds = Some (Inr rows', ds')"
    and "unit_draws ds" and "0 \<le> sr" "sr < srv"
    and "\<forall>r\<in>set rows. 0 \<le> fst r \<and> fst r < srv"
  shows "\<forall>r\<in>set rows'. 0 \<le> fst r \<and> fst r < srv"
  using assms
proof (induction dems arbitrary: sr allr rows ds)
  case Nil
  then show ?case by simp
next
  case (Cons d dems)
  let ?rows = "rows @ map (\<lambda>loc. (sr, loc, d - locs)) (adj g ! d)"
  have rows: "\<forall>r\<in>set ?rows. 0 \<le> fst r \<and> fst r < srv"
    using Cons.prems(3,4,5) by auto
  show ?case
  proof (cases allr)
    case False
    show ?thesis
    proof (cases "sr = srv - 1")
      case True
      with False Cons.prems(1) have "assign srv locs g dems sr True ?rows ds = Some (Inr rows', ds')"
        unfolding assign_Cons by simp
      from Cons.IH [OF this Cons.prems(2,3,4) rows] show ?thesis .
    next
      case ne: False
      with False Cons.prems(1) have run: "assign srv locs g dems (sr + 1) False ?rows ds = Some (Inr rows', ds')"
        unfolding assign_Cons by simp
      from ne Cons.prems(3,4) have "0 \<le> sr + 1" "sr + 1 < srv" by simp_all
      from Cons.IH [OF run Cons.prems(2) this rows] show ?thesis .
    qed
  next
    case True
    with Cons.prems(1) obtain k ds1 where r: "randint srv ds = Some (Inr k, ds1)"
      and run: "assign srv locs g dems k True ?rows ds1 = Some (Inr rows', ds')"
      unfolding assign_Cons by (auto split: option.splits sum.splits prod.splits)
    from randint_range [OF r Cons.prems(2)] have k: "0 \<le> k" "k < srv" and u: "unit_draws ds1"
      by simp_all
    from Cons.IH [OF run u k rows] show ?thesis .
  qed
qed

lemma assign_keeps_rows:
  assumes "assign srv locs g dems sr allr rows ds = Some (Inr rows', ds')"
  shows "set rows \<subseteq> set rows'"
  using assms
proof (induction dems arbitrary: sr allr rows ds)
  case Nil
  then show ?case by simp
next
  case (Cons d dems)
  let ?rows = "rows @ map (\<lambda>loc. (sr, loc, d - locs)) (adj g ! d)"
  from Cons.prems obtain sr' allr' ds1 where
    "assign srv locs g dems sr' allr' ?rows ds1 = Some (Inr rows', ds')"
    unfolding assign_Cons by (auto split: if_splits option.splits sum.splits prod.splits)
  from Cons.IH [OF this] show ?case by simp
qed

lemma assign_covers:
  assumes "assign srv locs g dems sr False rows ds = Some (Inr rows', ds')"
    and "\<forall>d\<in>set dems. adj g ! d \<noteq> []"
    and "srv \<le> sr + int (length dems)"
    and "sr \<le> i" "i < srv"
  shows "i \<in> fst ` set rows'"
  using assms
proof (induction dems arbitrary: sr rows ds)
  case Nil
  then show ?case by simp
next
  case (Cons d dems)
  let ?rows = "rows @ map (\<lambda>loc. (sr, loc, d - locs)) (adj g ! d)"
  from Cons.prems(2) obtain loc where "loc \<in> set (adj g ! d)" by (cases "adj g ! d") auto
  then have here: "sr \<in> fst ` set ?rows" by force
  show ?case
  proof (cases "sr = srv - 1")
    case True
    with Cons.prems(1) have run: "assign srv locs g dems sr True ?rows ds = Some (Inr rows', ds')"
      unfolding assign_Cons by simp
    from True Cons.prems(4,5) have "i = sr" by simp
    moreover have "fst ` set ?rows \<subseteq> fst ` set rows'"
      using assign_keeps_rows [OF run] by (rule image_mono)
    ultimately show ?thesis using here by blast
  next
    case False
    with Cons.prems(1) have run: "assign srv locs g dems (sr + 1) False ?rows ds = Some (Inr rows', ds')"
      unfolding assign_Cons by simp
    show ?thesis
    proof (cases "i = sr")
      case True
      moreover have "fst ` set ?rows \<subseteq> fst ` set rows'"
        using assign_keeps_rows [OF run] by (rule image_mono)
      ultimately show ?thesis using here by blast
    next
      case ne: False
      with Cons.prems(4) have "sr + 1 \<le> i" by simp
      moreover from Cons.prems(2) have "\<forall>d\<in>set dems. adj g ! d \<noteq> []" by simp
      moreover from Cons.prems(3) have "srv \<le> sr + 1 + int (length dems)" by simp
      ultimately show ?thesis using Cons.IH [OF run] Cons.prems(5) by blast
    qed
  qed
qed

subsection \<open>The rows of the table and the edges of the graph\<close>

lemma mem_edge_pairs:
  "(l, p) \<in> set (edge_pairs locs g dems) \<longleftrightarrow> (\<exists>d\<in>set dems. l \<in> set (adj g ! d) \<and> p = d - locs)"
  by (auto simp: edge_pairs_def)

lemma set_edge_pairs:
  "set (edge_pairs locs g [locs..<n]) = {(l, p). p < n - locs \<and> l \<in> set (adj g ! (locs + p))}"
proof -
  have "(l, p) \<in> set (edge_pairs locs g [locs..<n]) \<longleftrightarrow> p < n - locs \<and> l \<in> set (adj g ! (locs + p))"
    for l p
  proof
    assume "(l, p) \<in> set (edge_pairs locs g [locs..<n])"
    then obtain d where d: "locs \<le> d" "d < n" "l \<in> set (adj g ! d)" "p = d - locs"
      unfolding mem_edge_pairs by auto
    then have "locs + p = d" by simp
    with d show "p < n - locs \<and> l \<in> set (adj g ! (locs + p))" by simp
  next
    assume "p < n - locs \<and> l \<in> set (adj g ! (locs + p))"
    then have p: "locs + p < n" and l: "l \<in> set (adj g ! (locs + p))" by linarith+
    show "(l, p) \<in> set (edge_pairs locs g [locs..<n])"
      unfolding mem_edge_pairs
    proof (rule bexI [of _ "locs + p"])
      show "l \<in> set (adj g ! (locs + p)) \<and> p = locs + p - locs" using l by simp
      show "locs + p \<in> set [locs..<n]" using p by simp
    qed
  qed
  then show ?thesis by blast
qed

lemma distinct_edge_pairs:
  assumes "\<forall>d\<in>set dems. locs \<le> d \<and> distinct (adj g ! d)" and "distinct dems"
  shows "distinct (edge_pairs locs g dems)"
  using assms
proof (induction dems)
  case Nil
  then show ?case by (simp add: edge_pairs_def)
next
  case (Cons d dems)
  let ?row = "map (\<lambda>loc. (loc, d - locs)) (adj g ! d)"
  have eq: "edge_pairs locs g (d # dems) = ?row @ edge_pairs locs g dems"
    by (simp add: edge_pairs_def)
  from Cons.prems have "distinct (adj g ! d)" by simp
  then have row: "distinct ?row" by (simp add: distinct_map inj_on_def)
  from Cons have rest: "distinct (edge_pairs locs g dems)" by simp
  have "set ?row \<inter> set (edge_pairs locs g dems) = {}"
  proof (rule ccontr)
    assume "set ?row \<inter> set (edge_pairs locs g dems) \<noteq> {}"
    then obtain l p where "(l, p) \<in> set ?row" "(l, p) \<in> set (edge_pairs locs g dems)" by auto
    then obtain d' where "p = d - locs" "d' \<in> set dems" "p = d' - locs"
      unfolding mem_edge_pairs by auto
    with Cons.prems have "d' = d" "d \<notin> set dems" by auto
    with \<open>d' \<in> set dems\<close> show False by simp
  qed
  with row rest show ?case unfolding eq by simp
qed

lemma cross_edge_iff:
  assumes wf: "wf_graph n g" and bp: "bipartite locs g" and d: "locs \<le> d" "d < n"
  shows "l \<in> set (adj g ! d) \<longleftrightarrow> l < locs \<and> has_edge g l d"
proof
  assume l: "l \<in> set (adj g ! d)"
  have ln: "l < n" using wf d(2) l by (rule wf_graphD(3))
  have rev_edge: "d \<in> set (adj g ! l)" using wf d(2) l by (rule wf_graphD(5))
  from bp d l wf_graph_length [OF wf] have "l < locs" by (auto simp: bipartite_def)
  with ln rev_edge wf_graph_length [OF wf] show "l < locs \<and> has_edge g l d" by (simp add: has_edge_def)
next
  assume "l < locs \<and> has_edge g l d"
  then have ln: "l < n" and fwd: "d \<in> set (adj g ! l)"
    using wf_graph_length [OF wf] by (simp_all add: has_edge_def)
  show "l \<in> set (adj g ! d)" using wf ln fwd by (rule wf_graphD(5))
qed

lemma edge_pairs_cover:
  assumes wf: "wf_graph n g" and bp: "bipartite locs g" and le: "locs \<le> n"
    and deg: "\<forall>u<n. adj g ! u \<noteq> []"
  shows "locs \<le> length (edge_pairs locs g [locs..<n])" "n - locs \<le> length (edge_pairs locs g [locs..<n])"
proof -
  let ?E = "edge_pairs locs g [locs..<n]"
  have "{..<locs} \<subseteq> fst ` set ?E"
  proof
    fix l assume "l \<in> {..<locs}"
    then have l: "l < locs" "l < n" using le by simp_all
    with deg obtain d where d: "d \<in> set (adj g ! l)" by (cases "adj g ! l") auto
    have dn: "d < n" using wf l(2) d by (rule wf_graphD(3))
    have rev_edge: "l \<in> set (adj g ! d)" using wf l(2) d by (rule wf_graphD(5))
    from bp l d wf_graph_length [OF wf] have "locs \<le> d" by (auto simp: bipartite_def not_less)
    with dn rev_edge have "(l, d - locs) \<in> set ?E" by (simp add: set_edge_pairs)
    then show "l \<in> fst ` set ?E" by force
  qed
  then have "card {..<locs} \<le> card (fst ` set ?E)" by (intro card_mono finite_imageI finite_set)
  also have "\<dots> \<le> card (set ?E)" by (simp add: card_image_le)
  also have "\<dots> \<le> length ?E" by (rule card_length)
  finally show "locs \<le> length ?E" by simp
  have "{..<n - locs} \<subseteq> snd ` set ?E"
  proof
    fix p assume "p \<in> {..<n - locs}"
    then have p: "locs + p < n" by simp
    with deg obtain l where "l \<in> set (adj g ! (locs + p))" by (cases "adj g ! (locs + p)") auto
    with p have "(l, p) \<in> set ?E" by (simp add: set_edge_pairs)
    then show "p \<in> snd ` set ?E" by force
  qed
  then have "card {..<n - locs} \<le> card (snd ` set ?E)" by (intro card_mono finite_imageI finite_set)
  also have "\<dots> \<le> card (set ?E)" by (simp add: card_image_le)
  also have "\<dots> \<le> length ?E" by (rule card_length)
  finally show "n - locs \<le> length ?E" by simp
qed

subsection \<open>The final table\<close>

lemma random_sample_length:
  "random_sample n ds = Some (us, ds') \<Longrightarrow> length us = n \<and> ds = us @ ds'"
  by (auto simp: random_sample_def split: if_splits)

lemma map_filter_nth_opt:
  assumes "length a \<le> k"
  shows "List.map_filter (nth_opt a) [0..<k] = a"
proof -
  from assms have split: "[0..<k] = [0..<length a] @ [length a..<k]"
    by (metis le_add_diff_inverse upt_add_eq_append zero_le)
  have "filter (\<lambda>i. nth_opt a i \<noteq> None) [0..<k] = [0..<length a]"
    unfolding split by (auto simp: nth_opt_def filter_empty_conv)
  then have "List.map_filter (nth_opt a) [0..<k] = map (the \<circ> nth_opt a) [0..<length a]"
    by (simp add: List.map_filter_def)
  also have "\<dots> = map (nth a) [0..<length a]" by (simp add: nth_opt_def)
  also have "\<dots> = a" by (rule map_nth)
  finally show ?thesis .
qed

lemma map_filter_concat_axis1: "List.map_filter fst (concat_axis1 a b c) = a"
proof -
  have "List.map_filter fst (concat_axis1 a b c)
      = List.map_filter (nth_opt a) [0..<max (length a) (max (length b) (length c))]"
    by (simp add: concat_axis1_def List.map_filter_def comp_def filter_map)
  also have "\<dots> = a" by (rule map_filter_nth_opt) simp
  finally show ?thesis .
qed

lemma concat_axis1_full:
  assumes "length b \<le> length a" "length c \<le> length a"
  shows "length (concat_axis1 a b c) = length a"
    and "map fst (concat_axis1 a b c) = map Some a"
    and "i < length a \<Longrightarrow> concat_axis1 a b c ! i = (Some (a ! i), nth_opt b i, nth_opt c i)"
proof -
  from assms have m: "max (length a) (max (length b) (length c)) = length a" by simp
  show "length (concat_axis1 a b c) = length a" by (simp add: concat_axis1_def m)
  show "map fst (concat_axis1 a b c) = map Some a"
    by (rule nth_equalityI) (simp_all add: concat_axis1_def m nth_opt_def)
  show "concat_axis1 a b c ! i = (Some (a ! i), nth_opt b i, nth_opt c i)" if "i < length a"
    using that by (simp add: concat_axis1_def m nth_opt_def)
qed

lemma tabulateD:
  assumes "tabulate cfg st ds = Some (Inr out, ds')"
  obtains rows ds1 us ds2 vs where
    "assign (services cfg) (locations cfg) (G st) [locations cfg..<total_nodes cfg] 0 False [] ds
       = Some (Inr rows, ds1)"
    and "random_sample (locations cfg) ds1 = Some (us, ds2)"
    and "0 \<le> services cfg"
    and "random_sample (nat (services cfg)) ds2 = Some (vs, ds')"
    and "final_data out = concat_axis1 (sort rows) (map opening_cost us) (map equip_cost vs)"
  using assms
  by (auto simp: tabulate_def split: option.splits sum.splits if_splits prod.splits)

subsection \<open>A run reads a prefix of the random source\<close>

lemma reads_prefixI:
  assumes "\<And>ds r rest. f ds = Some (r, rest) \<Longrightarrow> \<exists>used. ds = used @ rest \<and> (\<forall>ds2. f (used @ ds2) = Some (r, ds2))"
  shows "reads_prefix f"
  using assms unfolding reads_prefix_def by blast

lemma reads_prefixD:
  assumes "reads_prefix f" "f ds = Some (r, rest)"
  shows "\<exists>used. ds = used @ rest \<and> (\<forall>ds2. f (used @ ds2) = Some (r, ds2))"
  using assms unfolding reads_prefix_def by blast

lemma reads_prefix_return: "reads_prefix (\<lambda>ds. Some (x, ds))"
  by (rule reads_prefixI) simp

lemma reads_prefix_bind:
  assumes f: "reads_prefix f" and g: "\<And>a. reads_prefix (g a)"
  shows "reads_prefix (\<lambda>ds. case f ds of None \<Rightarrow> None | Some (a, ds') \<Rightarrow> g a ds')"
proof (rule reads_prefixI)
  fix ds r rest
  assume "(case f ds of None \<Rightarrow> None | Some (a, ds') \<Rightarrow> g a ds') = Some (r, rest)"
  then obtain a ds1 where 1: "f ds = Some (a, ds1)" and 2: "g a ds1 = Some (r, rest)"
    by (auto split: option.splits)
  from reads_prefixD [OF f 1] obtain u1 where u1: "ds = u1 @ ds1" "\<forall>ds2. f (u1 @ ds2) = Some (a, ds2)"
    by blast
  from reads_prefixD [OF g 2] obtain u2 where u2: "ds1 = u2 @ rest" "\<forall>ds2. g a (u2 @ ds2) = Some (r, ds2)"
    by blast
  have "ds = (u1 @ u2) @ rest" using u1(1) u2(1) by simp
  moreover have "(case f ((u1 @ u2) @ ds2) of None \<Rightarrow> None | Some (a, ds') \<Rightarrow> g a ds') = Some (r, ds2)"
    for ds2
    using u1(2) [rule_format, of "u2 @ ds2"] u2(2) [rule_format, of ds2] by simp
  ultimately show "\<exists>used. ds = used @ rest \<and>
      (\<forall>ds2. (case f (used @ ds2) of None \<Rightarrow> None | Some (a, ds') \<Rightarrow> g a ds') = Some (r, ds2))"
    by blast
qed

lemma sample_free_prefix:
  "sample_free m cs ds = Some (c, rest) \<Longrightarrow>
     \<exists>used. ds = used @ rest \<and> (\<forall>ds2. sample_free m cs (used @ ds2) = Some (c, ds2))"
proof (induction m cs ds rule: sample_free.induct)
  case (1 m cs x y ds)
  show ?case
  proof (cases "too_close m cs (x, y)")
    case True
    with 1 obtain used where "ds = used @ rest" "\<forall>ds2. sample_free m cs (used @ ds2) = Some (c, ds2)"
      by auto
    with True have "x # y # ds = (x # y # used) @ rest \<and>
        (\<forall>ds2. sample_free m cs ((x # y # used) @ ds2) = Some (c, ds2))" by simp
    then show ?thesis by blast
  next
    case False
    with "1.prems" have "x # y # ds = [x, y] @ rest \<and>
        (\<forall>ds2. sample_free m cs ([x, y] @ ds2) = Some (c, ds2))" by simp
    then show ?thesis by blast
  qed
qed simp_all

lemma reads_prefix_sample_free: "reads_prefix (sample_free m cs)"
  by (rule reads_prefixI) (rule sample_free_prefix)

lemma place_prefix:
  "place n m cs node_idx ds = Some (r, rest) \<Longrightarrow>
     \<exists>used. ds = used @ rest \<and> (\<forall>ds2. place n m cs node_idx (used @ ds2) = Some (r, ds2))"
proof (induction n m cs node_idx ds rule: place.induct)
  case (1 n m cs node_idx ds)
  show ?case
  proof (cases "node_idx < n")
    case False
    with "1.prems" have "ds = [] @ rest \<and> (\<forall>ds2. place n m cs node_idx ([] @ ds2) = Some (r, ds2))"
      by (simp add: place_done)
    then show ?thesis by blast
  next
    case True
    with "1.prems"(1) have "\<not> length ds < 2" by (auto simp: place_short)
    then obtain x y ds1 where ds: "ds = x # y # ds1" using two_draws by blast
    show ?thesis
    proof (cases "too_close m cs (x, y)")
      case close: True
      with "1.prems" True ds have "place n m cs node_idx ds1 = Some (r, rest)"
        by (simp add: place_reject)
      from "1.IH"(1) [OF True ds refl close this]
      obtain used where "ds1 = used @ rest" "\<forall>ds2. place n m cs node_idx (used @ ds2) = Some (r, ds2)"
        by blast
      with True close ds have "ds = (x # y # used) @ rest \<and>
          (\<forall>ds2. place n m cs node_idx ((x # y # used) @ ds2) = Some (r, ds2))"
        by (simp add: place_reject)
      then show ?thesis by blast
    next
      case free: False
      with "1.prems" True ds
      have "place n m (dict_set cs node_idx (x, y)) (node_idx + 1) ds1 = Some (r, rest)"
        by (simp add: place_accept)
      from "1.IH"(2) [OF True ds refl free this]
      obtain used where "ds1 = used @ rest"
        "\<forall>ds2. place n m (dict_set cs node_idx (x, y)) (node_idx + 1) (used @ ds2) = Some (r, ds2)"
        by blast
      with True free ds have "ds = (x # y # used) @ rest \<and>
          (\<forall>ds2. place n m cs node_idx ((x # y # used) @ ds2) = Some (r, ds2))"
        by (simp add: place_accept)
      then show ?thesis by blast
    qed
  qed
qed

lemma reads_prefix_place: "reads_prefix (place n m cs node_idx)"
  by (rule reads_prefixI) (rule place_prefix)

lemma repair_node_prefix:
  "repair_node connect m idx st ds = Some (r, rest) \<Longrightarrow>
     \<exists>used. ds = used @ rest \<and> (\<forall>ds2. repair_node connect m idx st (used @ ds2) = Some (r, ds2))"
proof (induction connect m idx st ds rule: repair_node.induct)
  case (1 connect m idx st ds)
  show ?case
  proof (cases "adj (G st) ! idx = []")
    case False
    with "1.prems" have "ds = [] @ rest \<and>
        (\<forall>ds2. repair_node connect m idx st ([] @ ds2) = Some (r, ds2))"
      by (simp add: repair_node_done)
    then show ?thesis by blast
  next
    case True
    with "1.prems"(1) obtain c ds1 where s: "sample_free m (coords st) ds = Some (c, ds1)"
      and run: "repair_node connect m idx (relocate connect idx c st) ds1 = Some (r, rest)"
      by (auto simp: repair_node_retry split: option.splits)
    from sample_free_prefix [OF s] obtain u1 where u1: "ds = u1 @ ds1"
      "\<forall>ds2. sample_free m (coords st) (u1 @ ds2) = Some (c, ds2)" by blast
    from True have iso: "length (adj (G st) ! idx) = 0" by simp
    have "\<exists>used. ds1 = used @ rest \<and>
        (\<forall>ds2. repair_node connect m idx (relocate connect idx c st) (used @ ds2) = Some (r, ds2))"
      using iso s refl run by (rule "1.IH")
    then obtain u2 where u2: "ds1 = u2 @ rest"
      "\<forall>ds2. repair_node connect m idx (relocate connect idx c st) (u2 @ ds2) = Some (r, ds2)"
      by blast
    have "repair_node connect m idx st ((u1 @ u2) @ ds2) = Some (r, ds2)" for ds2
      using True u1(2) [rule_format, of "u2 @ ds2"] u2(2) [rule_format, of ds2]
      by (simp add: repair_node_retry)
    moreover have "ds = (u1 @ u2) @ rest" using u1(1) u2(1) by simp
    ultimately show ?thesis by blast
  qed
qed

lemma reads_prefix_repair_node: "reads_prefix (repair_node connect m idx st)"
  by (rule reads_prefixI) (rule repair_node_prefix)

lemma reads_prefix_repair_nodes: "reads_prefix (repair_nodes connect m idxs st)"
proof (induction idxs arbitrary: st)
  case Nil
  have "repair_nodes connect m [] st = (\<lambda>ds. Some (st, ds))" by (rule ext) simp
  then show ?case by (simp add: reads_prefix_return)
next
  case (Cons idx idxs)
  have "repair_nodes connect m (idx # idxs) st =
      (\<lambda>ds. case repair_node connect m idx st ds of None \<Rightarrow> None
             | Some (st', ds') \<Rightarrow> repair_nodes connect m idxs st' ds')"
    by (rule ext) simp
  moreover have "reads_prefix \<dots>"
    using reads_prefix_repair_node Cons.IH by (rule reads_prefix_bind)
  ultimately show ?case by simp
qed

lemma reads_prefix_random_sample: "reads_prefix (random_sample n)"
proof (rule reads_prefixI)
  fix ds r rest
  assume "random_sample n ds = Some (r, rest)"
  then have "ds = r @ rest" "length r = n" by (auto simp: random_sample_def split: if_splits)
  then have "ds = r @ rest \<and> (\<forall>ds2. random_sample n (r @ ds2) = Some (r, ds2))"
    by (simp add: random_sample_def)
  then show "\<exists>used. ds = used @ rest \<and> (\<forall>ds2. random_sample n (used @ ds2) = Some (r, ds2))"
    by blast
qed

lemma reads_prefix_randint: "reads_prefix (randint n)"
proof (rule reads_prefixI)
  fix ds r rest
  assume run: "randint n ds = Some (r, rest)"
  show "\<exists>used. ds = used @ rest \<and> (\<forall>ds2. randint n (used @ ds2) = Some (r, ds2))"
  proof (cases "n \<le> 0")
    case True
    with run have "ds = [] @ rest \<and> (\<forall>ds2. randint n ([] @ ds2) = Some (r, ds2))"
      by (simp add: randint_def)
    then show ?thesis by blast
  next
    case False
    with run obtain u where "ds = u # rest" "r = Inr \<lfloor>u * real_of_int n\<rfloor>"
      by (auto simp: randint_def split: list.splits)
    with False have "ds = [u] @ rest \<and> (\<forall>ds2. randint n ([u] @ ds2) = Some (r, ds2))"
      by (simp add: randint_def)
    then show ?thesis by blast
  qed
qed

lemma reads_prefix_assign: "reads_prefix (assign srv locs g dems sr allr rows)"
proof (induction dems arbitrary: sr allr rows)
  case Nil
  have "assign srv locs g [] sr allr rows = (\<lambda>ds. Some (Inr rows, ds))" by (rule ext) simp
  then show ?case by (simp add: reads_prefix_return)
next
  case (Cons d dems)
  let ?rows = "rows @ map (\<lambda>loc. (sr, loc, d - locs)) (adj g ! d)"
  show ?case
  proof (cases allr)
    case False
    have "assign srv locs g (d # dems) sr allr rows =
        assign srv locs g dems (if sr = srv - 1 then sr else sr + 1) (sr = srv - 1) ?rows"
      using False by (intro ext) (simp add: assign_Cons)
    with Cons.IH show ?thesis by simp
  next
    case True
    let ?g = "\<lambda>x ds'. case x of Inl e \<Rightarrow> Some (Inl e, ds')
                        | Inr k \<Rightarrow> assign srv locs g dems k True ?rows ds'"
    have g: "reads_prefix (?g x)" for x
      by (cases x) (simp_all add: reads_prefix_return Cons.IH)
    have "assign srv locs g (d # dems) sr allr rows =
        (\<lambda>ds. case randint srv ds of None \<Rightarrow> None | Some (x, ds') \<Rightarrow> ?g x ds')"
      using True by (intro ext) (simp add: assign_Cons split: option.splits sum.splits prod.splits)
    moreover have "reads_prefix \<dots>"
      using reads_prefix_randint g by (rule reads_prefix_bind)
    ultimately show ?thesis by simp
  qed
qed

lemma reads_prefix_build: "reads_prefix (build cfg)"
proof -
  let ?g = "\<lambda>cs ds'. Some (\<lparr>coords = cs,
                 G = remove_same_class (locations cfg) (total_nodes cfg)
                       (random_geometric_graph (total_nodes cfg) (service_range cfg) cs)\<rparr>, ds')"
  have "build cfg = (\<lambda>ds. case place (total_nodes cfg) (minimum_distance cfg) [] 0 ds of
                            None \<Rightarrow> None | Some (cs, ds') \<Rightarrow> ?g cs ds')"
    by (intro ext) (simp add: build_def)
  moreover have "reads_prefix \<dots>"
    by (rule reads_prefix_bind [OF reads_prefix_place]) (rule reads_prefix_return)
  ultimately show ?thesis by simp
qed

lemma reads_prefix_repaired: "reads_prefix (repaired cfg)"
proof -
  let ?g = "\<lambda>st1 ds1. case repair_dems cfg st1 ds1 of None \<Rightarrow> None
                         | Some (st2, ds2) \<Rightarrow> repair_locs cfg st2 ds2"
  have dems: "reads_prefix (repair_dems cfg st)" and locs: "reads_prefix (repair_locs cfg st)" for st
    unfolding repair_dems_def repair_locs_def by (rule reads_prefix_repair_nodes)+
  have g: "reads_prefix (?g st1)" for st1
    using dems locs by (rule reads_prefix_bind)
  have "repaired cfg = (\<lambda>ds. case build cfg ds of None \<Rightarrow> None | Some (st1, ds1) \<Rightarrow> ?g st1 ds1)"
    by (intro ext) (simp add: repaired_def)
  moreover have "reads_prefix \<dots>"
    using reads_prefix_build g by (rule reads_prefix_bind)
  ultimately show ?thesis by simp
qed

lemma reads_prefix_tabulate: "reads_prefix (tabulate cfg st)"
proof -
  let ?fin = "\<lambda>rows us vs ds3. Some (Inr \<lparr>out_coords = coords st, out_G = G st,
                final_data = concat_axis1 (sort rows) (map opening_cost us) (map equip_cost vs)\<rparr>, ds3)"
  let ?costs = "\<lambda>rows us ds2. if services cfg < 0 then Some (Inl ValueError, ds2)
                  else case random_sample (nat (services cfg)) ds2 of None \<Rightarrow> None
                       | Some (vs, ds3) \<Rightarrow> ?fin rows us vs ds3"
  let ?open = "\<lambda>rows ds1. case random_sample (locations cfg) ds1 of None \<Rightarrow> None
                  | Some (us, ds2) \<Rightarrow> ?costs rows us ds2"
  let ?g = "\<lambda>x ds1. case x of Inl e \<Rightarrow> Some (Inl e, ds1) | Inr rows \<Rightarrow> ?open rows ds1"
  have costs: "reads_prefix (?costs rows us)" for rows us
  proof (cases "services cfg < 0")
    case True
    then show ?thesis by (simp add: reads_prefix_return)
  next
    case False
    have "reads_prefix (\<lambda>ds2. case random_sample (nat (services cfg)) ds2 of None \<Rightarrow> None
                       | Some (vs, ds3) \<Rightarrow> ?fin rows us vs ds3)"
      by (rule reads_prefix_bind [OF reads_prefix_random_sample]) (rule reads_prefix_return)
    with False show ?thesis by simp
  qed
  have "reads_prefix (?open rows)" for rows
    using reads_prefix_random_sample costs by (rule reads_prefix_bind)
  then have g: "reads_prefix (?g x)" for x
    by (cases x) (simp_all add: reads_prefix_return)
  have "tabulate cfg st =
      (\<lambda>ds. case assign (services cfg) (locations cfg) (G st) [locations cfg..<total_nodes cfg] 0 False [] ds
             of None \<Rightarrow> None | Some (x, ds1) \<Rightarrow> ?g x ds1)"
    by (intro ext) (simp add: tabulate_def split: option.splits sum.splits prod.splits)
  moreover have "reads_prefix \<dots>"
    using reads_prefix_assign g by (rule reads_prefix_bind)
  ultimately show ?thesis by simp
qed

lemma reads_prefix_generate: "reads_prefix (generate_problem_file cfg)"
proof -
  consider "services cfg > int (points cfg)" 
    | "\<not> services cfg > int (points cfg)" "locations cfg = 0"
    | "\<not> services cfg > int (points cfg)" "locations cfg \<noteq> 0" by blast
  then show ?thesis
  proof cases
    case 1
    then have "generate_problem_file cfg = (\<lambda>ds. Some (Inl (SystemExit None), ds))"
      by (intro ext) (simp add: generate_problem_file_def)
    then show ?thesis by (simp add: reads_prefix_return)
  next
    case 2
    then have "generate_problem_file cfg = (\<lambda>ds. Some (Inl ZeroDivisionError, ds))"
      by (intro ext) (simp add: generate_problem_file_def)
    then show ?thesis by (simp add: reads_prefix_return)
  next
    case 3
    then have "generate_problem_file cfg =
        (\<lambda>ds. case repaired cfg ds of None \<Rightarrow> None | Some (st, ds') \<Rightarrow> tabulate cfg st ds')"
      by (intro ext) (simp add: generate_problem_file_def)
    moreover have "reads_prefix \<dots>"
      using reads_prefix_repaired reads_prefix_tabulate by (rule reads_prefix_bind)
    ultimately show ?thesis by simp
  qed
qed

subsection \<open>The retry loops have no bound\<close>

lemma sample_free_skips:
  "list_all (too_close m cs) rejected \<Longrightarrow>
     sample_free m cs (draws_of rejected @ ds) = sample_free m cs ds"
  by (induction rejected) simp_all

lemma place_skips:
  "node_idx < n \<Longrightarrow> list_all (too_close m cs) rejected \<Longrightarrow>
     place n m cs node_idx (draws_of rejected @ ds) = place n m cs node_idx ds"
  by (induction rejected) (simp_all add: place_reject)

lemma place_starves:
  assumes "node_idx < n" "too_close m cs (u, u)"
  shows "place n m cs node_idx (replicate k u) = None"
proof (induction k rule: less_induct)
  case (less k)
  show ?case
  proof (cases "k < 2")
    case True
    with assms(1) show ?thesis by (simp add: place_short)
  next
    case False
    then obtain j where k: "k = Suc (Suc j)" by (metis not_less Suc_le_D numeral_2_eq_2 Suc_le_mono)
    with less [of j] assms show ?thesis by (simp add: place_reject)
  qed
qed

subsection \<open>Evaluation\<close>

lemma sqrt_less_iff: "0 \<le> m \<Longrightarrow> sqrt x < m \<longleftrightarrow> x < m\<^sup>2"
proof -
  assume m: "0 \<le> m"
  then have s: "sqrt (m\<^sup>2) = m" by simp
  have "(sqrt x < sqrt (m\<^sup>2)) = (x < m\<^sup>2)" by (rule real_sqrt_less_iff)
  then show ?thesis unfolding s .
qed

lemma sqrt_le_iff: "0 \<le> m \<Longrightarrow> sqrt x \<le> m \<longleftrightarrow> x \<le> m\<^sup>2"
proof -
  assume m: "0 \<le> m"
  then have s: "sqrt (m\<^sup>2) = m" by simp
  have "(sqrt x \<le> sqrt (m\<^sup>2)) = (x \<le> m\<^sup>2)" by (rule real_sqrt_le_iff)
  then show ?thesis unfolding s .
qed

lemma too_close_sq:
  "0 \<le> m \<Longrightarrow> too_close m cs p =
     list_ex (\<lambda>c. (fst p - fst c) * (fst p - fst c) + (snd p - snd c) * (snd p - snd c) < m * m) cs"
  by (simp add: too_close_def distance_def sqrt_less_iff power2_eq_square)

lemma geometric_edges_sq:
  "0 \<le> r \<Longrightarrow> geometric_edges n r ps =
     [(u, v). u \<leftarrow> [0..<n], v \<leftarrow> [Suc u..<n],
        (fst (ps ! v) - fst (ps ! u)) * (fst (ps ! v) - fst (ps ! u)) +
        (snd (ps ! v) - snd (ps ! u)) * (snd (ps ! v) - snd (ps ! u)) \<le> r * r]"
  by (simp add: geometric_edges_def distance_def sqrt_le_iff power2_eq_square)

lemma connect_dem_sq:
  "0 \<le> r \<Longrightarrow> connect_dem r locs dem_idx c g =
     fold (\<lambda>loc_idx g.
             if (fst c - fst (pos g ! loc_idx)) * (fst c - fst (pos g ! loc_idx)) +
                (snd c - snd (pos g ! loc_idx)) * (snd c - snd (pos g ! loc_idx)) \<le> r * r
             then add_edge g loc_idx dem_idx else g) [0..<locs] g"
  by (simp add: connect_dem_def distance_def sqrt_le_iff power2_eq_square)

lemma connect_loc_sq:
  "0 \<le> r \<Longrightarrow> connect_loc r locs n loc_idx c g =
     fold (\<lambda>dem_idx g.
             if (fst c - fst (pos g ! dem_idx)) * (fst c - fst (pos g ! dem_idx)) +
                (snd c - snd (pos g ! dem_idx)) * (snd c - snd (pos g ! dem_idx)) \<le> r * r
             then add_edge g loc_idx dem_idx else g) [locs..<n] g"
  by (simp add: connect_loc_def distance_def sqrt_le_iff power2_eq_square)

lemma example_parameters:
  "service_range example_cfg = 1 / 2" "minimum_distance example_cfg = 1 / 20"
  "total_nodes example_cfg = 5" "locations example_cfg = 1" "services example_cfg = 2"
  "points example_cfg = 4"
  by (simp_all add: service_range_def minimum_distance_def example_cfg_def total_nodes_def)

lemma example_place:
  "place 5 (1 / 20) [] 0 example_draws =
     Some (example_placed, [9 / 10, 9 / 10, 9 / 10, 4 / 5, 0, 2 / 5, 1 / 4, 3 / 4, 1 / 2, 0, 99 / 100, 1 / 3])"
  by (simp add: example_draws_def example_placed_def place_done place_accept place_reject
        too_close_sq dict_set_def)

lemma example_geometric_edges:
  "geometric_edges 5 (1 / 2) example_placed = [(0, 1), (0, 3), (0, 4), (1, 3), (1, 4), (3, 4)]"
  by (simp add: geometric_edges_sq example_placed_def upt_conv_Cons)

lemma replicate_5: "replicate 5 x = [x, x, x, x, x]"
  by (simp add: numeral_eq_Suc)

lemma example_geometric_graph:
  "random_geometric_graph 5 (1 / 2) example_placed =
     \<lparr>pos = example_placed, adj = [[1, 3, 4], [0, 3, 4], [], [0, 1, 4], [0, 1, 3]]\<rparr>"
  by (simp add: random_geometric_graph_def example_geometric_edges add_edge_def add_key_def replicate_5)

lemma example_remove_same_class:
  "remove_same_class 1 5 \<lparr>pos = ps, adj = [[1, 3, 4], [0, 3, 4], [], [0, 1, 4], [0, 1, 3]]\<rparr> =
     \<lparr>pos = ps, adj = [[1, 3, 4], [0], [], [0], [0]]\<rparr>"
  by (simp add: remove_same_class_def remove_within_def remove_if_edge_def has_edge_def
        remove_edge_def upt_conv_Cons)

lemma example_build:
  "build example_cfg example_draws =
     Some (example_built, [9 / 10, 9 / 10, 9 / 10, 4 / 5, 0, 2 / 5, 1 / 4, 3 / 4, 1 / 2, 0, 99 / 100, 1 / 3])"
  by (simp add: build_def example_parameters example_place example_geometric_graph
        example_remove_same_class example_built_def del: One_nat_def)

lemma example_repair_dems:
  "repair_dems example_cfg example_built
       [9 / 10, 9 / 10, 9 / 10, 4 / 5, 0, 2 / 5, 1 / 4, 3 / 4, 1 / 2, 0, 99 / 100, 1 / 3] =
     Some (example_repaired, [1 / 4, 3 / 4, 1 / 2, 0, 99 / 100, 1 / 3])"
  by (simp add: repair_dems_def example_parameters example_built_def example_placed_def
        example_repaired_def example_graph_def example_coords_def upt_conv_Cons repair_node_done repair_node_retry
        too_close_sq relocate_def connect_dem_sq add_edge_def add_key_def)

lemma example_repair_locs:
  "repair_locs example_cfg example_repaired ds = Some (example_repaired, ds)"
  by (simp add: repair_locs_def example_parameters example_repaired_def example_graph_def repair_node_done)

lemma example_repaired_run:
  "repaired example_cfg example_draws =
     Some (example_repaired, [1 / 4, 3 / 4, 1 / 2, 0, 99 / 100, 1 / 3])"
  by (simp add: repaired_def example_build example_repair_dems example_repair_locs)

lemma example_assign:
  "assign 2 1 example_graph [1, 2, 3, 4] 0 False [] [1 / 4, 3 / 4, 1 / 2, 0, 99 / 100, 1 / 3] =
     Some (Inr [(0, 0, 0), (1, 0, 1), (1, 0, 2), (0, 0, 3)], [1 / 2, 0, 99 / 100, 1 / 3])"
  by (simp add: example_graph_def randint_def)

lemma example_sort:
  "sort [(0, 0, 0), (1, 0, 1), (1, 0, 2), (0, 0, 3 :: nat) :: row] =
     [(0, 0, 0), (0, 0, 3), (1, 0, 1), (1, 0, 2)]"
  by simp

lemma example_tabulate:
  "tabulate example_cfg example_repaired [1 / 4, 3 / 4, 1 / 2, 0, 99 / 100, 1 / 3] =
     Some (Inr example_out, [1 / 3])"
  by (simp add: tabulate_def example_parameters upt_conv_Cons example_assign example_sort
        random_sample_def opening_cost_def equip_cost_def concat_axis1_def nth_opt_def
        example_out_def example_repaired_def del: One_nat_def assign.simps)

lemma example_run:
  "generate_problem_file example_cfg example_draws = Some (Inr example_out, [1 / 3])"
  by (simp add: generate_problem_file_def example_parameters example_repaired_run example_tabulate)

lemma example_unit_draws: "unit_draws example_draws"
  by (simp add: unit_draws_def example_draws_def)

subsection \<open>The state in which a pass reaches a node\<close>

lemma repair_nodes_append:
  "repair_nodes connect m (xs @ ys) st ds =
     (case repair_nodes connect m xs st ds of
        None \<Rightarrow> None
      | Some (s, d) \<Rightarrow> repair_nodes connect m ys s d)"
  by (induction xs arbitrary: st ds) (auto split: option.splits)

lemma repair_nodes_reach:
  assumes run: "repair_nodes connect m [a..<b] st ds = Some (st', ds')"
    and ok: "state_ok n locs m st"
    and conn: "\<forall>idx\<in>set [a..<b]. idx < n \<and> cross_connect n locs (connect idx)"
    and u: "a \<le> u" "u < b"
    and reach: "repair_nodes connect m [a..<u] st ds = Some (s, d)"
    and deg: "adj (G s) ! u \<noteq> []"
  shows "coords st' ! u = coords s ! u"
proof -
  from u have split: "[a..<b] = [a..<u] @ [u..<b]"
    by (metis le_add_diff_inverse less_imp_le_nat upt_add_eq_append)
  from run reach have rest: "repair_nodes connect m [u..<b] s d = Some (st', ds')"
    unfolding split repair_nodes_append by simp
  from conn have c1: "\<forall>idx\<in>set [a..<u]. idx < n \<and> cross_connect n locs (connect idx)"
    and c2: "\<forall>idx\<in>set [u..<b]. idx < n \<and> cross_connect n locs (connect idx)"
    unfolding split by simp_all
  from repair_nodes_ok [OF reach ok c1] have oks: "state_ok n locs m s" by simp
  from repair_nodes_ok [OF rest oks c2] have "kept s st'" by simp
  moreover from conn u have "u < n" by simp
  with oks have "u < length (adj (G s))" by (simp add: state_ok_adj_length)
  ultimately show ?thesis using deg by (simp add: kept_def)
qed

lemma keptD:
  assumes "kept st st'" "u < length (adj (G st))"
  shows "set (adj (G st) ! u) \<subseteq> set (adj (G st') ! u)"
    and "adj (G st) ! u \<noteq> [] \<Longrightarrow> coords st' ! u = coords st ! u"
  using assms by (simp_all add: kept_def grows_def)

subsection \<open>The order of the rows\<close>

lemma row_le_iff: "row_le r r' \<longleftrightarrow> r \<le> r'"
  by (auto simp: row_le_def less_eq_prod_def)

lemma unit_draws_append: "unit_draws (xs @ ys) \<Longrightarrow> unit_draws ys"
  by (simp add: unit_draws_def)

subsection \<open>A second run of the example\<close>

lemma other_run:
  "generate_problem_file example_cfg other_draws = Some (Inr other_out, [1 / 3])"
proof -
  have split: "example_draws = take 18 example_draws @ example_tail"
    "other_draws = take 18 example_draws @ [1 / 4, 3 / 4, 1 / 2, 0, 0, 1 / 3]"
    by (simp_all add: example_draws_def other_draws_def example_tail_def)
  from reads_prefixD [OF reads_prefix_repaired example_repaired_run]
  obtain used where u: "example_draws = used @ [1 / 4, 3 / 4, 1 / 2, 0, 99 / 100, 1 / 3]"
    and all: "\<forall>ds2. repaired example_cfg (used @ ds2) = Some (example_repaired, ds2)"
    by blast
  from u split(1) have "used = take 18 example_draws"
    unfolding example_tail_def by (metis append_same_eq)
  with all
  have "repaired example_cfg (take 18 example_draws @ [1 / 4, 3 / 4, 1 / 2, 0, 0, 1 / 3]) =
      Some (example_repaired, [1 / 4, 3 / 4, 1 / 2, 0, 0, 1 / 3])"
    by blast
  then have r: "repaired example_cfg other_draws =
      Some (example_repaired, [1 / 4, 3 / 4, 1 / 2, 0, 0, 1 / 3])"
    unfolding split(2) [symmetric] .
  have t: "tabulate example_cfg example_repaired [1 / 4, 3 / 4, 1 / 2, 0, 0, 1 / 3] =
      Some (Inr other_out, [1 / 3])"
    by (simp add: tabulate_def example_parameters upt_conv_Cons example_graph_def example_sort
        randint_def random_sample_def opening_cost_def equip_cost_def concat_axis1_def nth_opt_def
        other_out_def example_repaired_def)
  show ?thesis
    by (simp add: generate_problem_file_def example_parameters r t)
qed

section \<open>The claims\<close>

text \<open>
  Claim C1. For a run that returns an instance (so all its sampling and repair loops have
  ended), with \<open>1 \<le> services \<le> points\<close> and every variate of the source in \<open>[0, 1)\<close>,
  the service ids of the records are exactly \<open>0, \<dots>, services - 1\<close>: every id of the range
  is in some record and no other id is.
\<close>

theorem service_ids_cover_range:
  assumes run: "generate_problem_file cfg ds = Some (Inr out, ds')"
    and pos: "1 \<le> services cfg" and le: "services cfg \<le> int (points cfg)"
    and ud: "unit_draws ds"
  shows "fst ` set (records out) = {0..<services cfg}"
proof -
  let ?dems = "[locations cfg..<total_nodes cfg]"
  from run obtain st ds1 where r: "repaired cfg ds = Some (st, ds1)"
    and t: "tabulate cfg st ds1 = Some (Inr out, ds')"
    by (rule generate_returns)
  from t obtain rows d1 us vs where
    a: "assign (services cfg) (locations cfg) (G st) ?dems 0 False [] ds1 = Some (Inr rows, d1)"
    and fd: "final_data out = concat_axis1 (sort rows) (map opening_cost us) (map equip_cost vs)"
    by (rule tabulateD)
  have rec: "set (records out) = set rows"
    by (simp add: records_def fd map_filter_concat_axis1)
  from reads_prefixD [OF reads_prefix_repaired r] ud have ud1: "unit_draws ds1"
    using unit_draws_append by blast
  have range: "\<forall>r\<in>set rows. 0 \<le> fst r \<and> fst r < services cfg"
    using a ud1 _ _ _ by (rule assign_ids_range) (use pos in simp_all)
  have deg: "\<forall>d\<in>set ?dems. adj (G st) ! d \<noteq> []"
    using repaired_ok(2) [OF r] by simp
  have len: "services cfg \<le> 0 + int (length ?dems)"
    using le by (simp add: total_nodes_def)
  have cover: "i \<in> fst ` set rows" if "0 \<le> i" "i < services cfg" for i
    using a deg len that by (rule assign_covers)
  show ?thesis unfolding rec
  proof (intro equalityI subsetI)
    fix i assume "i \<in> fst ` set rows"
    with range show "i \<in> {0..<services cfg}" by auto
  next
    fix i assume "i \<in> {0..<services cfg}"
    then show "i \<in> fst ` set rows" using cover by simp
  qed
qed

text \<open>The example run satisfies the hypotheses of C1.\<close>

theorem service_ids_cover_range_witness:
  "generate_problem_file example_cfg example_draws = Some (Inr example_out, [1 / 3]) \<and>
   1 \<le> services example_cfg \<and> services example_cfg \<le> int (points example_cfg) \<and>
   unit_draws example_draws \<and>
   fst ` set (records example_out) = {0..<services example_cfg}"
proof -
  have h: "1 \<le> services example_cfg" "services example_cfg \<le> int (points example_cfg)"
    by (simp_all add: example_parameters)
  from service_ids_cover_range [OF example_run h example_unit_draws]
  show ?thesis using example_run h example_unit_draws by simp
qed

text \<open>
  Claim C2. When the placement and the two repair passes (demand points first, then
  locations) have returned, the graph has one neighbour list for each node and every node,
  location or demand point, has degree at least 1.
\<close>

theorem every_node_connected:
  assumes "repaired cfg ds = Some (st, ds')"
  shows "length (adj (G st)) = total_nodes cfg \<and>
         (\<forall>u<total_nodes cfg. 1 \<le> length (adj (G st) ! u))"
proof -
  have "1 \<le> length (adj (G st) ! u)" if "u < total_nodes cfg" for u
    using repaired_ok(2) [OF assms that] by (cases "adj (G st) ! u") simp_all
  moreover have "length (adj (G st)) = total_nodes cfg"
    using repaired_ok(1) [OF assms] by (rule state_ok_adj_length)
  ultimately show ?thesis by blast
qed

text \<open>The example run for C2: demand point 2, isolated after placement, has a neighbour.\<close>

theorem every_node_connected_witness:
  "repaired example_cfg example_draws = Some (example_repaired, example_tail) \<and>
   length (adj (G example_repaired)) = total_nodes example_cfg \<and>
   1 \<le> length (adj (G example_repaired) ! 2)"
proof -
  have h: "repaired example_cfg example_draws = Some (example_repaired, example_tail)"
    by (simp add: example_repaired_run example_tail_def)
  from every_node_connected [OF h]
  have "length (adj (G example_repaired)) = total_nodes example_cfg"
    and "2 < total_nodes example_cfg \<longrightarrow> 1 \<le> length (adj (G example_repaired) ! 2)"
    by blast+
  with h show ?thesis by (simp add: example_parameters)
qed

text \<open>
  Claim C3. Any two distinct coordinates, of whatever class, are at distance at least
  \<^verbatim>\<open>minimum_distance\<close>: after the initial sampling, after every relocation of a repair
  loop (the new coordinate is the candidate that the sampling loop accepted), and in the
  coordinates of the returned instance.
\<close>

theorem pairwise_separation:
  "(build cfg ds = Some (st1, ds1) \<longrightarrow> separated (minimum_distance cfg) (coords st1)) \<and>
   (separated m (coords st) \<and> sample_free m (coords st) ds2 = Some (c, ds3) \<longrightarrow>
      separated m (coords (relocate connect idx c st))) \<and>
   (generate_problem_file cfg ds = Some (Inr out, ds') \<longrightarrow>
      length (out_coords out) = total_nodes cfg \<and>
      (\<forall>i<total_nodes cfg. \<forall>j<total_nodes cfg. i \<noteq> j \<longrightarrow>
         minimum_distance cfg \<le> distance (out_coords out ! i) (out_coords out ! j)))"
proof (intro conjI impI)
  assume "build cfg ds = Some (st1, ds1)"
  from build_ok [OF this] show "separated (minimum_distance cfg) (coords st1)"
    by (simp add: state_ok_def)
next
  assume *: "separated m (coords st) \<and> sample_free m (coords st) ds2 = Some (c, ds3)"
  then have "\<not> too_close m (coords st) c" using sample_free_accepts by blast
  with * have "separated m ((coords st)[idx := c])" by (simp add: separated_update)
  then show "separated m (coords (relocate connect idx c st))" by (simp add: relocate_def)
next
  assume "generate_problem_file cfg ds = Some (Inr out, ds')"
  then obtain st ds1 where r: "repaired cfg ds = Some (st, ds1)"
    and t: "tabulate cfg st ds1 = Some (Inr out, ds')"
    by (rule generate_returns)
  from repaired_ok(1) [OF r] tabulate_state(1) [OF t]
  have len: "length (out_coords out) = total_nodes cfg"
    and sep: "separated (minimum_distance cfg) (out_coords out)"
    by (simp_all add: state_ok_def)
  show "length (out_coords out) = total_nodes cfg" by fact
  show "\<forall>i<total_nodes cfg. \<forall>j<total_nodes cfg. i \<noteq> j \<longrightarrow>
      minimum_distance cfg \<le> distance (out_coords out ! i) (out_coords out ! j)"
    using sep unfolding separated_def len by blast
qed

text \<open>
  The example run for C3, with the first relocation of demand point 2 and the distance
  between the demand points 2 and 4 of the returned instance.
\<close>

theorem pairwise_separation_witness:
  "build example_cfg example_draws =
     Some (example_built, [9 / 10, 9 / 10, 9 / 10, 4 / 5, 0, 2 / 5] @ example_tail) \<and>
   separated (minimum_distance example_cfg) (coords example_built) \<and>
   sample_free (minimum_distance example_cfg) (coords example_built) [9 / 10, 9 / 10, 9 / 10, 4 / 5]
     = Some ((9 / 10, 4 / 5), []) \<and>
   separated (minimum_distance example_cfg)
     (coords (relocate (connect_dem (service_range example_cfg) 1) 2 (9 / 10, 4 / 5) example_built)) \<and>
   generate_problem_file example_cfg example_draws = Some (Inr example_out, [1 / 3]) \<and>
   minimum_distance example_cfg \<le> distance (out_coords example_out ! 2) (out_coords example_out ! 4)"
proof -
  have b: "build example_cfg example_draws =
     Some (example_built, [9 / 10, 9 / 10, 9 / 10, 4 / 5, 0, 2 / 5] @ example_tail)"
    by (simp add: example_build example_tail_def)
  have s: "sample_free (minimum_distance example_cfg) (coords example_built)
      [9 / 10, 9 / 10, 9 / 10, 4 / 5] = Some ((9 / 10, 4 / 5), [])"
    by (simp add: example_parameters example_built_def example_placed_def too_close_sq)
  note T = pairwise_separation [where cfg = example_cfg and ds = example_draws and ?st1.0 = example_built
      and ?ds1.0 = "[9 / 10, 9 / 10, 9 / 10, 4 / 5, 0, 2 / 5] @ example_tail"
      and m = "minimum_distance example_cfg" and st = example_built
      and ?ds2.0 = "[9 / 10, 9 / 10, 9 / 10, 4 / 5]" and c = "(9 / 10, 4 / 5)" and ?ds3.0 = "[]"
      and connect = "connect_dem (service_range example_cfg) 1" and idx = 2
      and out = example_out and ds' = "[1 / 3]"]
  from T b have 1: "separated (minimum_distance example_cfg) (coords example_built)" by blast
  from T 1 s have 2: "separated (minimum_distance example_cfg)
     (coords (relocate (connect_dem (service_range example_cfg) 1) 2 (9 / 10, 4 / 5) example_built))"
    by blast
  have n: "2 < total_nodes example_cfg" "4 < total_nodes example_cfg" "(2 :: nat) \<noteq> 4"
    by (simp_all add: example_parameters)
  from T example_run n
  have 3: "minimum_distance example_cfg \<le> distance (out_coords example_out ! 2) (out_coords example_out ! 4)"
    by blast
  from b 1 s 2 example_run 3 show ?thesis by blast
qed

text \<open>
  Claim C4 fails as stated: edges inside a class are added and removed afterwards. In the
  example run the graph that \<^verbatim>\<open>random_geometric_graph\<close> builds at line 57 joins the
  demand points 1 and 3 (the only location is node 0); lines 59 to 67 remove the edge.
\<close>

theorem same_class_edge_added:
  "place (total_nodes example_cfg) (minimum_distance example_cfg) [] 0 example_draws =
     Some (example_placed, [9 / 10, 9 / 10, 9 / 10, 4 / 5, 0, 2 / 5] @ example_tail) \<and>
   has_edge (random_geometric_graph (total_nodes example_cfg) (service_range example_cfg) example_placed) 1 3 \<and>
   locations example_cfg \<le> 1 \<and> locations example_cfg \<le> 3"
  by (simp add: example_parameters example_place example_tail_def example_geometric_graph has_edge_def
      del: One_nat_def)

text \<open>
  Claim C4, amended. The graph that the service assignment reads is bipartite: every
  neighbour of a node is a node of the graph and of the other class (a location has an
  index below \<^verbatim>\<open>locations\<close>, a demand point an index from \<^verbatim>\<open>locations\<close> on). This is
  reached by removing the edges inside a class after the geometric graph is built; the
  repair passes add edges between the classes only.
\<close>

theorem final_graph_bipartite:
  assumes "generate_problem_file cfg ds = Some (Inr out, ds')"
  shows "\<forall>u<total_nodes cfg. \<forall>v\<in>set (adj (out_G out) ! u).
           v < total_nodes cfg \<and> (u < locations cfg) \<noteq> (v < locations cfg)"
proof -
  from assms obtain st ds1 where r: "repaired cfg ds = Some (st, ds1)"
    and t: "tabulate cfg st ds1 = Some (Inr out, ds')"
    by (rule generate_returns)
  from repaired_ok(1) [OF r] have wf: "wf_graph (total_nodes cfg) (G st)"
    and bp: "bipartite (locations cfg) (G st)" by (simp_all add: state_ok_def)
  have "v < total_nodes cfg \<and> (u < locations cfg) \<noteq> (v < locations cfg)"
    if "u < total_nodes cfg" "v \<in> set (adj (G st) ! u)" for u v
  proof -
    have "v < total_nodes cfg" using wf that by (rule wf_graphD(3))
    moreover from bp that wf_graph_length [OF wf] have "(u < locations cfg) \<noteq> (v < locations cfg)"
      by (simp add: bipartite_def)
    ultimately show ?thesis by simp
  qed
  then show ?thesis unfolding tabulate_state(2) [OF t] by blast
qed

text \<open>The example run for C4: the edge between location 0 and demand point 2.\<close>

theorem final_graph_bipartite_witness:
  "generate_problem_file example_cfg example_draws = Some (Inr example_out, [1 / 3]) \<and>
   2 \<in> set (adj (out_G example_out) ! 0) \<and>
   2 < total_nodes example_cfg \<and> (0 < locations example_cfg) \<noteq> (2 < locations example_cfg)"
proof -
  have m: "2 \<in> set (adj (out_G example_out) ! 0)"
    by (simp add: example_out_def example_graph_def)
  have n: "0 < total_nodes example_cfg" by (simp add: example_parameters)
  from final_graph_bipartite [OF example_run, rule_format, OF n m] example_run m
  show ?thesis by blast
qed

text \<open>
  Claim C5: the code departs from it at the first demand point after the range. In the
  example (two services, four demand points, each joined to the one location) the ids
  are 0, 1, 1 and then a drawn one, whatever the source yields: the demand point that
  follows the one that received \<^verbatim>\<open>services - 1\<close> receives \<^verbatim>\<open>services - 1\<close> again, and the
  first variate \<open>u\<close> goes to the demand point after it (the second, \<open>v\<close>, is drawn after the
  last demand point and not used). The flag \<^verbatim>\<open>all_services_requested\<close> is set in the
  iteration that uses the last id, and that iteration neither increments the id nor draws
  one.
\<close>

theorem point_after_range_repeats_last_id:
  "assign (services example_cfg) (locations example_cfg) (G example_repaired)
       [locations example_cfg..<total_nodes example_cfg] 0 False [] (u # v # ds) =
     Some (Inr [(0, 0, 0), (1, 0, 1), (1, 0, 2), (\<lfloor>u * 2\<rfloor>, 0, 3)], ds)"
  by (simp add: example_parameters example_repaired_def example_graph_def randint_def upt_conv_Cons)

text \<open>
  Claim C6 fails as stated: no loop has a bound, and there is no error for an exhausted
  one. With one location, one demand point and a source that yields \<open>1 / 2\<close> for ever, the
  second node is rejected each time (it falls on the first), and the run has no result
  however many variates are supplied: it neither returns nor raises.
\<close>

theorem no_attempt_cap:
  "\<forall>k. generate_problem_file dense_cfg (replicate k (1 / 2)) = None"
proof
  fix k
  have p: "service_range dense_cfg = 1" "minimum_distance dense_cfg = 1 / 10" "total_nodes dense_cfg = 2"
    by (simp_all add: service_range_def minimum_distance_def total_nodes_def dense_cfg_def)
  have close: "too_close (1 / 10) [(1 / 2, 1 / 2)] (1 / 2, 1 / 2)"
    by (simp add: too_close_sq)
  have "place 2 (1 / 10) [] 0 (replicate k (1 / 2)) = None"
  proof (cases "k < 2")
    case True
    then show ?thesis by (simp add: place_short)
  next
    case False
    then obtain j where k: "k = Suc (Suc j)"
      by (metis not_less Suc_le_D numeral_2_eq_2 Suc_le_mono)
    have "place 2 (1 / 10) [(1 / 2, 1 / 2)] 1 (replicate j (1 / 2)) = None"
      using _ close by (rule place_starves) simp
    then show ?thesis unfolding k
      by (simp add: place_accept too_close_def dict_set_def)
  qed
  moreover have "\<not> services dense_cfg > int (points dense_cfg)" "locations dense_cfg \<noteq> 0"
    by (simp_all add: dense_cfg_def)
  ultimately show "generate_problem_file dense_cfg (replicate k (1 / 2)) = None"
    by (simp add: generate_problem_file_def repaired_def build_def p)
qed

text \<open>
  Claim C6, amended. The sampling loops of the initial placement and of the repair have no
  bound on the number of attempts: after any number of rejected candidates they go on as
  if these candidates had not been drawn, and they end only when a candidate is accepted.
\<close>

theorem retries_unbounded:
  assumes "list_all (too_close m cs) rejected"
  shows "sample_free m cs (draws_of rejected @ ds) = sample_free m cs ds \<and>
         (node_idx < n \<longrightarrow> place n m cs node_idx (draws_of rejected @ ds) = place n m cs node_idx ds)"
  using assms by (simp add: sample_free_skips place_skips)

text \<open>Two rejected candidates next to a placed point, for C6.\<close>

theorem retries_unbounded_witness:
  "list_all (too_close (1 / 20) [(0, 0)]) [(0, 0), (0, 1 / 100)] \<and>
   sample_free (1 / 20) [(0, 0)] (draws_of [(0, 0), (0, 1 / 100)] @ [1 / 2, 1 / 2])
     = sample_free (1 / 20) [(0, 0)] [1 / 2, 1 / 2] \<and>
   (1 :: nat) < 2 \<and>
   place 2 (1 / 20) [(0, 0)] 1 (draws_of [(0, 0), (0, 1 / 100)] @ [1 / 2, 1 / 2])
     = place 2 (1 / 20) [(0, 0)] 1 [1 / 2, 1 / 2]"
proof -
  have h: "list_all (too_close (1 / 20) [(0, 0)]) [(0, 0), (0, 1 / 100)]"
    by (simp add: too_close_sq)
  from retries_unbounded [OF h, of "[1 / 2, 1 / 2]" 1 2] h show ?thesis by simp
qed

text \<open>
  Claim C7 fails as stated: the refused run gives the caller no status of failure. With
  five services for three demand points the function prints its message and calls
  \<^verbatim>\<open>exit()\<close> with no code, so the script ends with exit status 0, the same status as
  the example run, which returns an instance.
\<close>

theorem refused_run_exits_with_status_zero:
  "services refused_cfg > int (points refused_cfg) \<and>
   generate_problem_file refused_cfg [] = Some (Inl (SystemExit None), []) \<and>
   script_status refused_cfg [] = Some 0 \<and>
   script_status example_cfg example_draws = Some 0"
proof -
  have refused: "generate_problem_file refused_cfg [] = Some (Inl (SystemExit None), [])"
    by (simp add: generate_problem_file_def refused_cfg_def)
  have "script_status refused_cfg [] = Some 0"
    unfolding script_status_def refused by (simp add: exit_status_def)
  moreover have "script_status example_cfg example_draws = Some 0"
    unfolding script_status_def example_run by simp
  moreover have "services refused_cfg > int (points refused_cfg)"
    by (simp add: refused_cfg_def)
  ultimately show ?thesis using refused by simp
qed

text \<open>
  Claim C7, amended. If \<^verbatim>\<open>services > points\<close>, the run ends at once, before any
  randomness is consumed: the function raises \<^verbatim>\<open>SystemExit\<close> (by \<^verbatim>\<open>exit()\<close>, after the
  message is printed) and leaves the source untouched, so no point is sampled and no
  record or cost is made, and no instance is returned to the caller.
\<close>

theorem more_services_than_points_exits:
  assumes "services cfg > int (points cfg)"
  shows "generate_problem_file cfg ds = Some (Inl (SystemExit None), ds)"
  using assms by (simp add: generate_problem_file_def)

text \<open>Five services for three demand points, with a source that yields nothing.\<close>

theorem more_services_than_points_exits_witness:
  "services refused_cfg > int (points refused_cfg) \<and>
   generate_problem_file refused_cfg [] = Some (Inl (SystemExit None), [])"
proof -
  have h: "services refused_cfg > int (points refused_cfg)" by (simp add: refused_cfg_def)
  from more_services_than_points_exits [OF h, of "[]"] h show ?thesis by simp
qed

text \<open>
  Claim C8. In the table of a returned instance every row carries a record; the records
  are exactly one for each edge between a location \<open>l\<close> and a demand point with point id
  \<open>p\<close> (node \<open>locations + p\<close>), in ascending order of (service, location, point); the
  opening cost is filled in the rows before row \<^verbatim>\<open>locations\<close> and in no other, the equip
  cost in the rows before row \<^verbatim>\<open>services\<close> and in no other, whatever the records of
  these rows are.
\<close>

theorem final_table_layout:
  assumes run: "generate_problem_file cfg ds = Some (Inr out, ds')"
  shows "map fst (final_data out) = map Some (records out) \<and>
         distinct (map snd (records out)) \<and>
         set (map snd (records out)) =
           {(l, p). l < locations cfg \<and> p < points cfg \<and> has_edge (out_G out) l (locations cfg + p)} \<and>
         sorted_wrt row_le (records out) \<and>
         (\<forall>i<length (final_data out).
            (fst (snd (final_data out ! i)) \<noteq> None \<longleftrightarrow> i < locations cfg) \<and>
            (snd (snd (final_data out ! i)) \<noteq> None \<longleftrightarrow> int i < services cfg))"
proof -
  let ?n = "total_nodes cfg" and ?L = "locations cfg"
  let ?dems = "[?L..<?n]"
  from run obtain st ds1 where r: "repaired cfg ds = Some (st, ds1)"
    and t: "tabulate cfg st ds1 = Some (Inr out, ds')"
    and le: "services cfg \<le> int (points cfg)"
    by (rule generate_returns)
  from t obtain rows d1 us d2 vs where
    a: "assign (services cfg) ?L (G st) ?dems 0 False [] ds1 = Some (Inr rows, d1)"
    and us: "random_sample ?L d1 = Some (us, d2)"
    and nonneg: "0 \<le> services cfg"
    and vs: "random_sample (nat (services cfg)) d2 = Some (vs, ds')"
    and fd: "final_data out = concat_axis1 (sort rows) (map opening_cost us) (map equip_cost vs)"
    by (rule tabulateD)
  have g: "out_G out = G st" using t by (rule tabulate_state)
  from repaired_ok(1) [OF r] have wf: "wf_graph ?n (G st)" and bp: "bipartite ?L (G st)"
    by (simp_all add: state_ok_def)
  have deg: "\<forall>u<?n. adj (G st) ! u \<noteq> []" using repaired_ok(2) [OF r] by simp
  have Ln: "?L \<le> ?n" and P: "?n - ?L = points cfg" by (simp_all add: total_nodes_def)
  have lus: "length us = ?L" using random_sample_length [OF us] by simp
  have lvs: "length vs = nat (services cfg)" using random_sample_length [OF vs] by simp
  have pairs: "map snd rows = edge_pairs ?L (G st) ?dems"
    using assign_pairs [OF a] by simp
  then have lrows: "length rows = length (edge_pairs ?L (G st) ?dems)"
    by (metis length_map)
  from edge_pairs_cover [OF wf bp Ln deg] lrows P
  have big: "?L \<le> length rows" "points cfg \<le> length rows" by simp_all
  from big(2) le nonneg have "nat (services cfg) \<le> length rows" by linarith
  with big(1) lus lvs have fits: "length (map opening_cost us) \<le> length (sort rows)"
    "length (map equip_cost vs) \<le> length (sort rows)" by simp_all
  note full = concat_axis1_full [OF fits]
  have rec: "records out = sort rows"
    by (simp add: records_def fd map_filter_concat_axis1)
  have 1: "map fst (final_data out) = map Some (records out)"
    unfolding rec fd by (rule full(2))
  have ms: "mset (map snd (sort rows)) = mset (edge_pairs ?L (G st) ?dems)"
    unfolding pairs [symmetric] by simp
  have "distinct (edge_pairs ?L (G st) ?dems)"
  proof (rule distinct_edge_pairs)
    show "\<forall>d\<in>set ?dems. ?L \<le> d \<and> distinct (adj (G st) ! d)"
      using wf_graphD(2) [OF wf] by simp
    show "distinct ?dems" by simp
  qed
  with ms have 2: "distinct (map snd (records out))"
    unfolding rec using mset_eq_imp_distinct_iff by blast
  have "set (map snd (sort rows)) = set (edge_pairs ?L (G st) ?dems)"
    using ms by (rule mset_eq_setD)
  also have "\<dots> = {(l, p). p < ?n - ?L \<and> l \<in> set (adj (G st) ! (?L + p))}"
    by (rule set_edge_pairs)
  also have "\<dots> = {(l, p). l < ?L \<and> p < points cfg \<and> has_edge (G st) l (?L + p)}"
  proof -
    have "(p < ?n - ?L \<and> l \<in> set (adj (G st) ! (?L + p))) \<longleftrightarrow>
          (l < ?L \<and> p < points cfg \<and> has_edge (G st) l (?L + p))" for l p
    proof (cases "p < points cfg")
      case True
      then have "?L \<le> ?L + p" "?L + p < ?n" by (simp_all add: total_nodes_def)
      from cross_edge_iff [OF wf bp this] True P show ?thesis by auto
    next
      case False
      with P show ?thesis by simp
    qed
    then show ?thesis by simp
  qed
  finally have 3: "set (map snd (records out)) =
      {(l, p). l < ?L \<and> p < points cfg \<and> has_edge (out_G out) l (?L + p)}"
    unfolding rec g .
  have "sorted_wrt (\<le>) (sort rows)" using sorted_sort [of rows] by simp
  then have 4: "sorted_wrt row_le (records out)"
    unfolding rec by (rule sorted_wrt_mono_rel [rotated]) (simp add: row_le_iff)
  have 5: "(fst (snd (final_data out ! i)) \<noteq> None \<longleftrightarrow> i < ?L) \<and>
           (snd (snd (final_data out ! i)) \<noteq> None \<longleftrightarrow> int i < services cfg)"
    if "i < length (final_data out)" for i
  proof -
    from that have i: "i < length (sort rows)" unfolding fd full(1) .
    have "final_data out ! i =
        (Some (sort rows ! i), nth_opt (map opening_cost us) i, nth_opt (map equip_cost vs) i)"
      unfolding fd using i by (rule full(3))
    then show ?thesis using lus lvs nonneg by (auto simp: nth_opt_def)
  qed
  from 1 2 3 4 5 show ?thesis by blast
qed

text \<open>The example run for C8.\<close>

theorem final_table_layout_witness:
  "generate_problem_file example_cfg example_draws = Some (Inr example_out, [1 / 3]) \<and>
   map fst (final_data example_out) = map Some (records example_out) \<and>
   distinct (map snd (records example_out)) \<and>
   sorted_wrt row_le (records example_out)"
  using final_table_layout [OF example_run] example_run by blast

text \<open>
  Claim C9 fails as stated: the function takes neither a seed nor a source, and draws from
  the global state of \<^verbatim>\<open>np.random\<close>. Two runs with the same configuration give different
  tables when that state differs; here one variate of the cost sampling does.
\<close>

theorem same_configuration_different_output:
  "generate_problem_file example_cfg example_draws = Some (Inr example_out, [1 / 3]) \<and>
   generate_problem_file example_cfg other_draws = Some (Inr other_out, [1 / 3]) \<and>
   final_data example_out \<noteq> final_data other_out"
  by (simp add: example_run other_run example_out_def other_out_def)

text \<open>
  Claim C9, amended. The result of a run is determined by the configuration and the variates
  that the global source yields: a run that ends has read a prefix of them, in order, and
  a run with the same configuration on any source that starts with this prefix ends with
  the same result.
\<close>

theorem output_determined_by_draws:
  assumes "generate_problem_file cfg ds = Some (r, rest)"
  shows "\<exists>used. ds = used @ rest \<and> (\<forall>ds2. generate_problem_file cfg (used @ ds2) = Some (r, ds2))"
  using reads_prefix_generate assms by (rule reads_prefixD)

text \<open>The example run for C9: it reads all variates but the last.\<close>

theorem output_determined_by_draws_witness:
  "generate_problem_file example_cfg example_draws = Some (Inr example_out, [1 / 3]) \<and>
   (\<exists>used. example_draws = used @ [1 / 3] \<and>
      (\<forall>ds2. generate_problem_file example_cfg (used @ ds2) = Some (Inr example_out, ds2)))"
  using output_determined_by_draws [OF example_run] example_run by blast

text \<open>
  Claim C10. The repair passes never remove an edge: every neighbour that a node has after
  the edges inside a class are removed, it has at the end. A node that has a neighbour in
  the state in which its pass reaches it has the same coordinate at the end of the repair.
\<close>

theorem repair_only_adds:
  assumes b: "build cfg ds = Some (st1, ds1)"
    and d: "repair_dems cfg st1 ds1 = Some (st2, ds2)"
    and l: "repair_locs cfg st2 ds2 = Some (st3, ds3)"
  shows "(\<forall>u<total_nodes cfg. set (adj (G st1) ! u) \<subseteq> set (adj (G st3) ! u)) \<and>
         (\<forall>u s r. locations cfg \<le> u \<and> u < total_nodes cfg \<and> reach_dem cfg u st1 ds1 = Some (s, r) \<and>
                   adj (G s) ! u \<noteq> [] \<longrightarrow> coords st3 ! u = coords s ! u) \<and>
         (\<forall>u s r. u < locations cfg \<and> reach_loc cfg u st2 ds2 = Some (s, r) \<and>
                   adj (G s) ! u \<noteq> [] \<longrightarrow> coords st3 ! u = coords s ! u)"
proof -
  let ?n = "total_nodes cfg" and ?L = "locations cfg" and ?m = "minimum_distance cfg"
  note ok1 = build_ok [OF b]
  from repair_dems_ok [OF d ok1] have ok2: "state_ok ?n ?L ?m st2" and k12: "kept st1 st2" by simp_all
  from repair_locs_ok [OF l ok2] have ok3: "state_ok ?n ?L ?m st3" and k23: "kept st2 st3" by simp_all
  from k12 k23 have k13: "kept st1 st3" by (rule kept_trans)
  have cd: "\<forall>idx\<in>set [?L..<?n]. idx < ?n \<and> cross_connect ?n ?L (connect_dem (service_range cfg) ?L idx)"
    by (simp add: cross_connect_dem)
  have cl: "\<forall>idx\<in>set [0..<?L]. idx < ?n \<and>
      cross_connect ?n ?L (connect_loc (service_range cfg) ?L ?n idx)"
    by (simp add: cross_connect_loc total_nodes_def)
  have edges: "set (adj (G st1) ! u) \<subseteq> set (adj (G st3) ! u)" if "u < ?n" for u
    using k13 that ok1 by (simp add: keptD(1) state_ok_adj_length)
  have dems: "coords st3 ! u = coords s ! u"
    if "?L \<le> u" "u < ?n" "reach_dem cfg u st1 ds1 = Some (s, r)" "adj (G s) ! u \<noteq> []" for u s r
  proof -
    have "coords st2 ! u = coords s ! u"
      using d [unfolded repair_dems_def] ok1 cd that(1,2) that(3) [unfolded reach_dem_def] that(4)
      by (rule repair_nodes_reach)
    moreover have "adj (G st2) ! u \<noteq> []"
      using repair_dems_ok [OF d ok1] that(1,2) by simp
    with k23 ok2 that(2) have "coords st3 ! u = coords st2 ! u"
      by (simp add: keptD(2) state_ok_adj_length)
    ultimately show ?thesis by simp
  qed
  have locs: "coords st3 ! u = coords s ! u"
    if "u < ?L" "reach_loc cfg u st2 ds2 = Some (s, r)" "adj (G s) ! u \<noteq> []" for u s r
    using l [unfolded repair_locs_def] ok2 cl _ that(1) that(2) [unfolded reach_loc_def] that(3)
    by (rule repair_nodes_reach) simp
  show ?thesis using edges dems locs by blast
qed

text \<open>The example run for C10: location 0 and demand point 1 are never isolated.\<close>

theorem repair_only_adds_witness:
  "build example_cfg example_draws =
     Some (example_built, [9 / 10, 9 / 10, 9 / 10, 4 / 5, 0, 2 / 5] @ example_tail) \<and>
   repair_dems example_cfg example_built ([9 / 10, 9 / 10, 9 / 10, 4 / 5, 0, 2 / 5] @ example_tail)
     = Some (example_repaired, example_tail) \<and>
   repair_locs example_cfg example_repaired example_tail = Some (example_repaired, example_tail) \<and>
   set (adj (G example_built) ! 0) \<subseteq> set (adj (G example_repaired) ! 0) \<and>
   reach_dem example_cfg 1 example_built ([9 / 10, 9 / 10, 9 / 10, 4 / 5, 0, 2 / 5] @ example_tail)
     = Some (example_built, [9 / 10, 9 / 10, 9 / 10, 4 / 5, 0, 2 / 5] @ example_tail) \<and>
   adj (G example_built) ! 1 \<noteq> [] \<and>
   coords example_repaired ! 1 = coords example_built ! 1 \<and>
   reach_loc example_cfg 0 example_repaired example_tail = Some (example_repaired, example_tail) \<and>
   adj (G example_repaired) ! 0 \<noteq> [] \<and>
   coords example_repaired ! 0 = coords example_repaired ! 0"
proof -
  let ?t1 = "[9 / 10, 9 / 10, 9 / 10, 4 / 5, 0, 2 / 5] @ example_tail"
  have b: "build example_cfg example_draws = Some (example_built, ?t1)"
    by (simp add: example_build example_tail_def)
  have d: "repair_dems example_cfg example_built ?t1 = Some (example_repaired, example_tail)"
    using example_repair_dems by (simp add: example_tail_def)
  have l: "repair_locs example_cfg example_repaired example_tail = Some (example_repaired, example_tail)"
    by (rule example_repair_locs)
  have rd: "reach_dem example_cfg 1 example_built ?t1 = Some (example_built, ?t1)"
    by (simp add: reach_dem_def example_parameters)
  have rl: "reach_loc example_cfg 0 example_repaired example_tail = Some (example_repaired, example_tail)"
    by (simp add: reach_loc_def)
  have a1: "adj (G example_built) ! 1 \<noteq> []" by (simp add: example_built_def)
  have a0: "adj (G example_repaired) ! 0 \<noteq> []" by (simp add: example_repaired_def example_graph_def)
  have n: "0 < total_nodes example_cfg" "locations example_cfg \<le> 1" "1 < total_nodes example_cfg"
    "0 < locations example_cfg"
    by (simp_all add: example_parameters)
  note T = repair_only_adds [OF b d l]
  from T n(1) have 1: "set (adj (G example_built) ! 0) \<subseteq> set (adj (G example_repaired) ! 0)"
    by blast
  from T n(2,3) rd a1 have 2: "coords example_repaired ! 1 = coords example_built ! 1" by blast
  from b d l 1 rd a1 2 rl a0 show ?thesis by simp
qed

end
